theory Spec2Isabelle
  imports Complex_Main
begin

section \<open>The build script \<open>setup.py\<close>\<close>

subsection \<open>Python values used by the script\<close>

datatype py_error = IndexError

text \<open>
  \<open>del xs[i]\<close> for a list \<open>xs\<close> and an integer \<open>i\<close>: a negative index counts from the
  end, an index out of range raises \<open>IndexError\<close>.
\<close>

definition del_item :: "'a list \<Rightarrow> int \<Rightarrow> py_error + 'a list" where
  "del_item xs i =
     (if - int (length xs) \<le> i \<and> i < int (length xs)
      then Inr (let j = nat (if i < 0 then i + int (length xs) else i)
                in take j xs @ drop (Suc j) xs)
      else Inl IndexError)"

subsection \<open>User Eigen path (lines 37 to 46)\<close>

text \<open>
  The state of the scan is the pair of the two module variables
  \<open>(eigen_usr_include, i_eigen)\<close>. The slice \<open>arg[:5]\<close> is \<open>take 5 arg\<close> and
  \<open>arg[6:]\<close> is \<open>drop 6 arg\<close>: Python slices never raise on short strings.
\<close>

fun eigen_scan :: "nat \<Rightarrow> string list \<Rightarrow> string \<times> int \<Rightarrow> string \<times> int" where
  "eigen_scan i [] st = st"
| "eigen_scan i (arg # args) st =
     eigen_scan (Suc i) args (if take 5 arg = ''eigen'' then (drop 6 arg, int i) else st)"

text \<open>
  The whole block: the scan from \<open>eigen_usr_include = ""\<close>, \<open>i_eigen = -1\<close> over
  \<open>enumerate(sys.argv)\<close>, then the guarded deletion. The result is the final
  \<open>eigen_usr_include\<close> and the final \<open>sys.argv\<close>.
\<close>

definition parse_eigen_argv :: "string list \<Rightarrow> py_error + (string \<times> string list)" where
  "parse_eigen_argv argv =
     (case eigen_scan 0 argv ('''', - 1) of
        (eigen_usr_include, i_eigen) \<Rightarrow>
          if i_eigen > - 1
          then (case del_item argv i_eigen of
                  Inl e \<Rightarrow> Inl e
                | Inr argv' \<Rightarrow> Inr (eigen_usr_include, argv'))
          else Inr (eigen_usr_include, argv))"

text \<open>The indices of the arguments that match, in increasing order.\<close>

definition eigen_matches :: "string list \<Rightarrow> nat list" where
  "eigen_matches argv = filter (\<lambda>i. take 5 (argv ! i) = ''eigen'') [0..<length argv]"

subsection \<open>Path functions of \<open>posixpath\<close>\<close>

text \<open>
  The script declares the platforms linux and macosx, where \<open>os.path\<close> is
  \<open>posixpath\<close>. \<open>join2 a b\<close> is one round of the loop of \<open>posixpath.join\<close>:
  an absolute component replaces the path, an empty path or one ending in the
  separator is extended without a separator.
\<close>

definition join2 :: "string \<Rightarrow> string \<Rightarrow> string" where
  "join2 path b =
     (if take 1 b = ''/'' then b
      else if path = [] \<or> last path = CHR ''/'' then path @ b
      else path @ ''/'' @ b)"

definition path_join :: "string \<Rightarrow> string list \<Rightarrow> string" where
  "path_join a p = foldl join2 a p"

text \<open>\<open>p.rfind('/') + 1\<close>: the length of the longest prefix ending in a separator.\<close>

fun rfind_sep_succ :: "string \<Rightarrow> nat" where
  "rfind_sep_succ [] = 0"
| "rfind_sep_succ (c # cs) =
     (let r = rfind_sep_succ cs
      in if r > 0 then Suc r else if c = CHR ''/'' then 1 else 0)"

definition rstrip_sep :: "string \<Rightarrow> string" where
  "rstrip_sep s = rev (dropWhile (\<lambda>c. c = CHR ''/'') (rev s))"

definition dirname :: "string \<Rightarrow> string" where
  "dirname p =
     (let head = take (rfind_sep_succ p) p
      in if head \<noteq> [] \<and> head \<noteq> replicate (length head) (CHR ''/'')
         then rstrip_sep head else head)"

subsection \<open>Eigen include path (lines 72 to 89)\<close>

text \<open>
  What the function reads from outside: the directories of the file system
  (\<open>os.path.isdir\<close>), the variable \<open>HOME\<close> of \<open>os.environ\<close> and
  \<open>sysconfig.get_paths()['include']\<close>.
\<close>

record os_env =
  isdir :: "string \<Rightarrow> bool"
  environ_HOME :: "string option"
  sysconfig_include :: string

definition possible_path :: "os_env \<Rightarrow> string \<Rightarrow> string list" where
  "possible_path env propose_path =
     [propose_path, dirname (sysconfig_include env), ''/usr/include/'', ''/usr/local/include/'']
     @ (case environ_HOME env of
          None \<Rightarrow> []
        | Some home \<Rightarrow> [path_join home [''.local/include'']])"

fun eigen_search :: "os_env \<Rightarrow> string list \<Rightarrow> string" where
  "eigen_search env [] = ''''"
| "eigen_search env (path # paths) =
     (if isdir env (path_join path [''Eigen'']) then path
      else if isdir env (path_join path [''eigen3'', ''Eigen''])
      then path_join path [''eigen3'']
      else eigen_search env paths)"

definition get_eigen_include :: "os_env \<Rightarrow> string \<Rightarrow> string" where
  "get_eigen_include env propose_path = eigen_search env (possible_path env propose_path)"

text \<open>A candidate matches when one of its two probes is a directory.\<close>

definition has_eigen :: "os_env \<Rightarrow> string \<Rightarrow> bool" where
  "has_eigen env p \<longleftrightarrow>
     isdir env (path_join p [''Eigen'']) \<or> isdir env (path_join p [''eigen3'', ''Eigen''])"

subsection \<open>Extension to compile (lines 148 to 165)\<close>

text \<open>
  An entry of \<open>include_dirs\<close> is a string or a \<open>get_pybind_include\<close> object, which
  holds its \<open>user\<close> flag and is converted to a string only later.
\<close>

datatype include_dir = Dir string | get_pybind_include bool

record extension =
  ext_name :: string
  ext_sources :: "string list"
  ext_include_dirs :: "include_dir list"
  ext_language :: string
  ext_depends :: "string list"

text \<open>
  \<open>here\<close> is the absolute directory of the script and \<open>eigen_usr_include\<close> the
  result of the scan of \<open>sys.argv\<close>. Adjacent string literals without a comma are
  one literal in Python, written here with \<open>@\<close>.
\<close>

definition ext_modules :: "os_env \<Rightarrow> string \<Rightarrow> string \<Rightarrow> extension list" where
  "ext_modules env here eigen_usr_include =
     [\<lparr> ext_name = ''SBCK.tools.__tools_cpp'',
        ext_sources = [path_join here [''SBCK/tools/src/tools.cpp'']],
        ext_include_dirs =
          [Dir (get_eigen_include env eigen_usr_include),
           get_pybind_include False,
           get_pybind_include True],
        ext_language = ''c++'',
        ext_depends =
          [''SBCK/tools/src/SparseHist.hpp''
           @ ''SBCK/tools/src/NetworkSimplex.hpp''
           @ ''SBCK/tools/src/NetworkSimplexLemon.hpp''] \<rparr>]"

section \<open>The transport core\<close>

text \<open>
  The extension is compiled from \<open>SBCK/tools/src/tools.cpp\<close> with the headers
  \<open>SparseHist.hpp\<close>, \<open>NetworkSimplex.hpp\<close> and \<open>NetworkSimplexLemon.hpp\<close>. None of
  them is among the source files, so every definition of this section is modelled
  from the specification. Masses, coordinates and costs are real numbers, as the
  specification has them, and arithmetic on them is exact: there are no rounding ties
  to guard, and the tolerance is used where the specification compares a result with
  it, in the mass check and in the assembly of the plan.
\<close>

subsection \<open>Errors and histograms\<close>

text \<open>
  Modelled from the spec: the error taxonomy of section 7 (the header that raises
  them is missing). \<open>MassMismatchError\<close> carries the measured discrepancy and
  \<open>NonConvergenceError\<close> the flow found so far.
\<close>

datatype solver_error =
    EmptyInputError
  | MassMismatchError real
  | InfeasibleGraphError
  | NonConvergenceError "((nat \<times> nat) \<times> real) list"

text \<open>
  Modelled from the spec: a bin of section 3 (\<open>SparseHist.hpp\<close> is missing), an
  integer multi-index, a centre and a mass. A histogram is the list of its bins.
\<close>

record bin =
  bin_index :: "int list"
  bin_center :: "real list"
  bin_mass :: real

text \<open>
  Modelled from the spec: the cell of a sample in the discretisation with the given
  bin widths, and the centre of a cell (\<open>SparseHist.hpp\<close> is missing).
\<close>

definition bin_of_sample :: "real list \<Rightarrow> real list \<Rightarrow> int list" where
  "bin_of_sample widths x = map2 (\<lambda>v w. \<lfloor>v / w\<rfloor>) x widths"

definition center_of :: "real list \<Rightarrow> int list \<Rightarrow> real list" where
  "center_of widths idx = map2 (\<lambda>k w. (real_of_int k + 1 / 2) * w) idx widths"

text \<open>
  Modelled from the spec: samples falling in the same bin are deduplicated by mass
  accumulation (\<open>SparseHist.hpp\<close> is missing). A new bin is appended, so the order of
  the bins is the order of first occurrence.
\<close>

fun accumulate :: "real \<Rightarrow> real list \<Rightarrow> int list \<Rightarrow> bin list \<Rightarrow> bin list" where
  "accumulate u widths idx [] =
     [\<lparr> bin_index = idx, bin_center = center_of widths idx, bin_mass = u \<rparr>]"
| "accumulate u widths idx (b # bs) =
     (if bin_index b = idx then b\<lparr> bin_mass := bin_mass b + u \<rparr> # bs
      else b # accumulate u widths idx bs)"

text \<open>
  Modelled from the spec: the construction of section 4.1 (\<open>SparseHist.hpp\<close> is
  missing). Each of the \<open>n\<close> samples adds the mass \<open>1/n\<close>, so the masses are
  normalised; zero samples, or zero occupied bins, fail with \<open>EmptyInputError\<close>.
\<close>

definition fill :: "real \<Rightarrow> real list \<Rightarrow> real list list \<Rightarrow> bin list" where
  "fill u widths samples =
     foldl (\<lambda>bs x. accumulate u widths (bin_of_sample widths x) bs) [] samples"

definition SparseHistogram :: "real list list \<Rightarrow> real list \<Rightarrow> solver_error + bin list" where
  "SparseHistogram samples widths =
     (if samples = [] then Inl EmptyInputError
      else let bins = fill (1 / real (length samples)) widths samples
           in if bins = [] then Inl EmptyInputError else Inr bins)"

subsection \<open>Cost model and configuration\<close>

text \<open>
  Modelled from the spec: the cost model of section 4.2 (the header that computes
  costs is missing). The default is the squared Euclidean distance; the plain
  distance and any user function are values of the field \<open>cost_model\<close>.
\<close>

definition squared_euclidean :: "real list \<Rightarrow> real list \<Rightarrow> real" where
  "squared_euclidean x y = sum_list (map2 (\<lambda>a b. (a - b)\<^sup>2) x y)"

definition euclidean :: "real list \<Rightarrow> real list \<Rightarrow> real" where
  "euclidean x y = sqrt (squared_euclidean x y)"

text \<open>
  Modelled from the spec: the configuration of section 6 (the header that reads it is
  missing). Only the dense graph is modelled: the specification does not say how a
  feasible start is found on a sparsified graph, so \<open>graph_mode\<close> and \<open>k_neighbors\<close>
  have no field.
\<close>

datatype mass_mismatch_policy = Fail | Rescale

record config =
  cost_model :: "real list \<Rightarrow> real list \<Rightarrow> real"
  mass_mismatch :: mass_mismatch_policy
  max_iterations :: nat
  tolerance :: real

subsection \<open>Network simplex\<close>

text \<open>
  Modelled from the spec: the state of the solver of section 4.4
  (\<open>NetworkSimplex.hpp\<close> is missing). An arc is a pair (source bin, sink bin); the
  state is the list of the tree arcs with their flows. Arcs outside the tree carry no
  flow, since arcs are unbounded within the supply.
\<close>

type_synonym arc = "nat \<times> nat"
type_synonym tree = "(arc \<times> real) list"

text \<open>
  Modelled from the spec: step 1, the initial basic feasible solution by the
  northwest-corner rule (\<open>NetworkSimplex.hpp\<close> is missing). \<open>northwest i j ss ds\<close>
  serves the remaining supplies \<open>ss\<close> of the rows from \<open>i\<close> and the remaining demands
  \<open>ds\<close> of the columns from \<open>j\<close>; it moves to the next row when the row is used up,
  to the next column otherwise, and on the last row or column it can only move along it.
\<close>

fun northwest :: "nat \<Rightarrow> nat \<Rightarrow> real list \<Rightarrow> real list \<Rightarrow> tree" where
  "northwest i j [] ds = []"
| "northwest i j (s # ss) [] = []"
| "northwest i j (s # ss) (d # ds) =
     (if ss = [] \<and> ds = [] then [((i, j), min s d)]
      else if ds = [] \<or> (ss \<noteq> [] \<and> s \<le> d)
      then ((i, j), min s d) # northwest (Suc i) j ss ((d - min s d) # ds)
      else ((i, j), min s d) # northwest i (Suc j) ((s - min s d) # ss) ds)"

text \<open>
  Modelled from the spec: step 2, the node potentials by one traversal of the tree
  from the root, the first source (\<open>NetworkSimplex.hpp\<close> is missing). The table
  holds, for each node reached, the path from the root and the potential, with
  \<open>cost(i,j) = potential(i) - potential(j)\<close> on every arc used. The traversal is
  breadth first; its fuel is the number of nodes of a spanning tree.
\<close>

datatype node = Src nat | Snk nat

type_synonym table = "(node \<times> node list \<times> real) list"

fun other_end :: "node \<Rightarrow> arc \<Rightarrow> node option" where
  "other_end (Src i) (i', j) = (if i = i' then Some (Snk j) else None)"
| "other_end (Snk j) (i, j') = (if j = j' then Some (Src i) else None)"

fun step_cost :: "(nat \<Rightarrow> nat \<Rightarrow> real) \<Rightarrow> node \<Rightarrow> node \<Rightarrow> real" where
  "step_cost c (Src i) (Snk j) = - c i j"
| "step_cost c (Snk j) (Src i) = c i j"
| "step_cost c (Src i) (Src i') = 0"
| "step_cost c (Snk j) (Snk j') = 0"

definition visit ::
  "(nat \<Rightarrow> nat \<Rightarrow> real) \<Rightarrow> node \<Rightarrow> node list \<Rightarrow> real \<Rightarrow> node list \<times> table \<Rightarrow> arc \<Rightarrow> node list \<times> table" where
  "visit c v pth pot qt a =
     (case other_end v a of
        None \<Rightarrow> qt
      | Some w \<Rightarrow>
          if map_of (snd qt) w \<noteq> None then qt
          else (fst qt @ [w], snd qt @ [(w, pth @ [w], pot + step_cost c v w)]))"

fun traverse :: "nat \<Rightarrow> (nat \<Rightarrow> nat \<Rightarrow> real) \<Rightarrow> arc list \<Rightarrow> node list \<Rightarrow> table \<Rightarrow> table" where
  "traverse 0 c arcs queue tab = tab"
| "traverse (Suc k) c arcs [] tab = tab"
| "traverse (Suc k) c arcs (v # queue) tab =
     (case map_of tab v of
        None \<Rightarrow> traverse k c arcs queue tab
      | Some (pth, pot) \<Rightarrow>
          (case foldl (visit c v pth pot) (queue, tab) arcs of
             (queue', tab') \<Rightarrow> traverse k c arcs queue' tab'))"

definition potentials :: "(nat \<Rightarrow> nat \<Rightarrow> real) \<Rightarrow> arc list \<Rightarrow> table" where
  "potentials c arcs = traverse (Suc (length arcs)) c arcs [Src 0] [(Src 0, [Src 0], 0)]"

text \<open>
  Modelled from the spec: step 3, the entering arc (\<open>NetworkSimplex.hpp\<close> is
  missing). The arcs outside the tree are scanned in lexicographic order for the most
  negative reduced cost; a later arc replaces the best one only when it is strictly
  better, so ties go to the lowest (source, sink) pair. No negative reduced cost means
  the tree is optimal.
\<close>

definition pot_of :: "table \<Rightarrow> node \<Rightarrow> real" where
  "pot_of tab v = (case map_of tab v of None \<Rightarrow> 0 | Some (pth, pot) \<Rightarrow> pot)"

definition reduced_cost :: "(nat \<Rightarrow> nat \<Rightarrow> real) \<Rightarrow> table \<Rightarrow> arc \<Rightarrow> real" where
  "reduced_cost c tab a =
     c (fst a) (snd a) - (pot_of tab (Src (fst a)) - pot_of tab (Snk (snd a)))"

definition non_tree_arcs :: "nat \<Rightarrow> nat \<Rightarrow> tree \<Rightarrow> arc list" where
  "non_tree_arcs n m t =
     filter (\<lambda>a. a \<notin> set (map fst t)) (concat (map (\<lambda>i. map (\<lambda>j. (i, j)) [0..<m]) [0..<n]))"

fun most_negative :: "(arc \<Rightarrow> real) \<Rightarrow> arc list \<Rightarrow> arc option \<Rightarrow> arc option" where
  "most_negative rc [] best = best"
| "most_negative rc (a # as) best =
     most_negative rc as
       (if rc a < 0 \<and> (case best of None \<Rightarrow> True | Some b \<Rightarrow> rc a < rc b)
        then Some a else best)"

definition entering_arc :: "(nat \<Rightarrow> nat \<Rightarrow> real) \<Rightarrow> nat \<Rightarrow> nat \<Rightarrow> tree \<Rightarrow> table \<Rightarrow> arc option" where
  "entering_arc c n m t tab = most_negative (reduced_cost c tab) (non_tree_arcs n m t) None"

text \<open>
  Modelled from the spec: step 4, the cycle closed by the entering arc
  (\<open>NetworkSimplex.hpp\<close> is missing). The tree paths of the two ends are cut at
  their last common node; the walk goes from the sink of the entering arc up to that
  node and down to the source of the entering arc. When an end is not in the table,
  which a spanning tree excludes, there is no walk.
\<close>

fun strip_common :: "node list \<Rightarrow> node list \<Rightarrow> node \<Rightarrow> node \<times> node list \<times> node list" where
  "strip_common (x # xs) (y # ys) l =
     (if x = y then strip_common xs ys x else (l, x # xs, y # ys))"
| "strip_common [] ys l = (l, [], ys)"
| "strip_common xs [] l = (l, xs, [])"

definition cycle_walk :: "table \<Rightarrow> arc \<Rightarrow> node list option" where
  "cycle_walk tab e =
     (case map_of tab (Snk (snd e)) of
        None \<Rightarrow> None
      | Some (pq, potq) \<Rightarrow>
          (case map_of tab (Src (fst e)) of
             None \<Rightarrow> None
           | Some (pp, potp) \<Rightarrow>
               (case strip_common pq pp (Src 0) of
                  (l, rq, rp) \<Rightarrow> Some (rev rq @ l # rp))))"

text \<open>
  Modelled from the spec: step 4, the pivot (\<open>NetworkSimplex.hpp\<close> is missing). Flow
  is pushed round the cycle: the entering arc and the arcs walked from source to sink
  gain \<open>theta\<close>, the arcs walked from sink to source lose it. \<open>theta\<close> is the least
  flow on the losing arcs; the losing arc with that flow and the lowest index leaves
  the tree. Without a walk the state stays as it is.
\<close>

fun backward_arcs :: "node list \<Rightarrow> arc list" where
  "backward_arcs (Snk j # Src i # w) = (i, j) # backward_arcs (Src i # w)"
| "backward_arcs (v # w) = backward_arcs w"
| "backward_arcs [] = []"

definition flow_of :: "tree \<Rightarrow> arc \<Rightarrow> real" where
  "flow_of t a = (case map_of t a of None \<Rightarrow> 0 | Some x \<Rightarrow> x)"

definition add_flow :: "arc \<Rightarrow> real \<Rightarrow> tree \<Rightarrow> tree" where
  "add_flow a delta t = map (\<lambda>(b, x). if b = a then (b, x + delta) else (b, x)) t"

fun push :: "real \<Rightarrow> node list \<Rightarrow> tree \<Rightarrow> tree" where
  "push theta (Src i # Snk j # w) t = push theta (Snk j # w) (add_flow (i, j) theta t)"
| "push theta (Snk j # Src i # w) t = push theta (Src i # w) (add_flow (i, j) (- theta) t)"
| "push theta (v # w) t = push theta w t"
| "push theta [] t = t"

definition arc_less :: "arc \<Rightarrow> arc \<Rightarrow> bool" where
  "arc_less a b \<longleftrightarrow> fst a < fst b \<or> (fst a = fst b \<and> snd a < snd b)"

fun lowest :: "arc \<Rightarrow> arc list \<Rightarrow> arc" where
  "lowest a [] = a"
| "lowest a (b # bs) = lowest (if arc_less b a then b else a) bs"

definition pivot :: "tree \<Rightarrow> table \<Rightarrow> arc \<Rightarrow> tree" where
  "pivot t tab e =
     (case cycle_walk tab e of
        None \<Rightarrow> t
      | Some w \<Rightarrow>
          (case backward_arcs w of
             [] \<Rightarrow> t
           | b # bs \<Rightarrow>
               let theta = fold min (map (flow_of t) bs) (flow_of t b);
                   leave = (case filter (\<lambda>a. flow_of t a = theta) (b # bs) of
                              [] \<Rightarrow> b
                            | a # as \<Rightarrow> lowest a as)
               in (e, theta) # filter (\<lambda>(a, x). a \<noteq> leave) (push theta w t)))"

text \<open>
  Modelled from the spec: the optimality condition of step 3 in the words of the
  specification, no arc outside the tree has a negative reduced cost
  (\<open>NetworkSimplex.hpp\<close> is missing); one round of the loop, which pivots on the
  entering arc when there is one; and the state after a number of rounds.
\<close>

definition optimal :: "(nat \<Rightarrow> nat \<Rightarrow> real) \<Rightarrow> nat \<Rightarrow> nat \<Rightarrow> tree \<Rightarrow> bool" where
  "optimal c n m t \<longleftrightarrow>
     (\<forall>a\<in>set (non_tree_arcs n m t). \<not> reduced_cost c (potentials c (map fst t)) a < 0)"

definition pivot_step :: "(nat \<Rightarrow> nat \<Rightarrow> real) \<Rightarrow> nat \<Rightarrow> nat \<Rightarrow> tree \<Rightarrow> tree" where
  "pivot_step c n m t =
     (case entering_arc c n m t (potentials c (map fst t)) of
        None \<Rightarrow> t
      | Some e \<Rightarrow> pivot t (potentials c (map fst t)) e)"

fun after_pivots :: "nat \<Rightarrow> (nat \<Rightarrow> nat \<Rightarrow> real) \<Rightarrow> nat \<Rightarrow> nat \<Rightarrow> tree \<Rightarrow> tree" where
  "after_pivots 0 c n m t = t"
| "after_pivots (Suc k) c n m t = after_pivots k c n m (pivot_step c n m t)"

text \<open>
  Modelled from the spec: step 5, the loop (\<open>NetworkSimplex.hpp\<close> is missing). The
  first argument is the number of pivots still allowed. A tree that is not optimal
  when none is left is reported as \<open>NonConvergenceError\<close> with the flow so far.
\<close>

fun simplex_loop :: "nat \<Rightarrow> (nat \<Rightarrow> nat \<Rightarrow> real) \<Rightarrow> nat \<Rightarrow> nat \<Rightarrow> tree \<Rightarrow> solver_error + tree" where
  "simplex_loop 0 c n m t =
     (case entering_arc c n m t (potentials c (map fst t)) of
        None \<Rightarrow> Inr t
      | Some e \<Rightarrow> Inl (NonConvergenceError t))"
| "simplex_loop (Suc k) c n m t =
     (case entering_arc c n m t (potentials c (map fst t)) of
        None \<Rightarrow> Inr t
      | Some e \<Rightarrow> simplex_loop k c n m (pivot t (potentials c (map fst t)) e))"

subsection \<open>Transport plan and the whole solve\<close>

text \<open>
  Modelled from the spec: the plan of sections 2 and 4.5 (the header that assembles
  it is missing). It is built from the final flows and has an entry for each pair with
  nonzero flow; entries below the tolerance are dropped. The total cost is the sum of
  flow times cost over the entries.
\<close>

definition assemble :: "real \<Rightarrow> tree \<Rightarrow> tree" where
  "assemble eps t = filter (\<lambda>(a, x). x \<noteq> 0 \<and> \<not> x < eps) t"

definition total_cost :: "(nat \<Rightarrow> nat \<Rightarrow> real) \<Rightarrow> tree \<Rightarrow> real" where
  "total_cost c plan = sum_list (map (\<lambda>(a, x). x * c (fst a) (snd a)) plan)"

text \<open>
  Modelled from the spec: the mass check of the graph construction, section 4.3 (the
  header that builds the graph is missing). Totals that differ by more than the
  tolerance fail or rescale the sink histogram, as configured.
\<close>

definition total_mass :: "bin list \<Rightarrow> real" where
  "total_mass h = sum_list (map bin_mass h)"

definition rescale :: "real \<Rightarrow> bin list \<Rightarrow> bin list" where
  "rescale r h = map (\<lambda>b. b\<lparr> bin_mass := r * bin_mass b \<rparr>) h"

text \<open>
  Modelled from the spec: the data flow of section 2, graph construction, solver and
  plan assembly in a row (the headers are missing).
\<close>

definition arc_cost :: "config \<Rightarrow> bin list \<Rightarrow> bin list \<Rightarrow> nat \<Rightarrow> nat \<Rightarrow> real" where
  "arc_cost cfg A B i j = cost_model cfg (bin_center (A ! i)) (bin_center (B ! j))"

definition start_tree :: "bin list \<Rightarrow> bin list \<Rightarrow> tree" where
  "start_tree A B = northwest 0 0 (map bin_mass A) (map bin_mass B)"

definition run_simplex :: "config \<Rightarrow> bin list \<Rightarrow> bin list \<Rightarrow> solver_error + (tree \<times> real)" where
  "run_simplex cfg A B =
     (case simplex_loop (max_iterations cfg) (arc_cost cfg A B) (length A) (length B)
             (start_tree A B) of
        Inl e \<Rightarrow> Inl e
      | Inr t \<Rightarrow> Inr (assemble (tolerance cfg) t,
                      total_cost (arc_cost cfg A B) (assemble (tolerance cfg) t)))"

definition balance :: "config \<Rightarrow> bin list \<Rightarrow> bin list \<Rightarrow> solver_error + bin list" where
  "balance cfg A B =
     (if \<bar>total_mass A - total_mass B\<bar> > tolerance cfg
      then (case mass_mismatch cfg of
              Fail \<Rightarrow> Inl (MassMismatchError \<bar>total_mass A - total_mass B\<bar>)
            | Rescale \<Rightarrow> Inr (rescale (total_mass A / total_mass B) B))
      else Inr B)"

definition solve :: "config \<Rightarrow> bin list \<Rightarrow> bin list \<Rightarrow> solver_error + (tree \<times> real)" where
  "solve cfg A B =
     (case balance cfg A B of
        Inl e \<Rightarrow> Inl e
      | Inr B' \<Rightarrow> run_simplex cfg A B')"

subsection \<open>Notions used in the statements and proofs\<close>

text \<open>
  The total outflow of a source bin and the total inflow of a sink bin in a list of
  entries, which the plan exposes according to section 4.5.
\<close>

definition outflow :: "tree \<Rightarrow> nat \<Rightarrow> real" where
  "outflow t i = sum_list (map (\<lambda>(a, x). if fst a = i then x else 0) t)"

definition inflow :: "tree \<Rightarrow> nat \<Rightarrow> real" where
  "inflow t j = sum_list (map (\<lambda>(a, x). if snd a = j then x else 0) t)"

text \<open>
  A walk along the arcs of a list, the arcs a walk passes from source to sink, and
  the invariant of the traversal table: keys are unique, every path runs from the root
  to its key along tree arcs, and every prefix of a path is the path of its last node.
\<close>

fun walk_in :: "arc list \<Rightarrow> node list \<Rightarrow> bool" where
  "walk_in arcs (u # v # w) \<longleftrightarrow>
     (\<exists>a\<in>set arcs. other_end u a = Some v) \<and> walk_in arcs (v # w)"
| "walk_in arcs [u] \<longleftrightarrow> True"
| "walk_in arcs [] \<longleftrightarrow> True"

fun forward_arcs :: "node list \<Rightarrow> arc list" where
  "forward_arcs (Src i # Snk j # w) = (i, j) # forward_arcs (Snk j # w)"
| "forward_arcs (v # w) = forward_arcs w"
| "forward_arcs [] = []"

definition table_ok :: "arc list \<Rightarrow> table \<Rightarrow> bool" where
  "table_ok arcs tab \<longleftrightarrow>
     distinct (map fst tab) \<and>
     (\<forall>(v, pth, pot)\<in>set tab.
        pth \<noteq> [] \<and> last pth = v \<and> hd pth = Src 0 \<and> walk_in arcs pth \<and>
        (\<forall>k<length pth. \<exists>pot'. (pth ! k, take (Suc k) pth, pot') \<in> set tab))"

text \<open>
  The state of the solver on two histograms after a number of rounds, and its
  optimality condition there.
\<close>

definition solver_state :: "config \<Rightarrow> bin list \<Rightarrow> bin list \<Rightarrow> nat \<Rightarrow> tree" where
  "solver_state cfg A B j =
     after_pivots j (arc_cost cfg A B) (length A) (length B) (start_tree A B)"

definition solver_optimal :: "config \<Rightarrow> bin list \<Rightarrow> bin list \<Rightarrow> tree \<Rightarrow> bool" where
  "solver_optimal cfg A B t \<longleftrightarrow> optimal (arc_cost cfg A B) (length A) (length B) t"



text \<open>
  The potential a path accumulates from its first node, the table invariant that
  every stored potential is the one of its path, and the flow that keeps every bin in
  place: the diagonal arcs are all in the tree and carry the masses, the
  other tree arcs carry nothing.
\<close>

fun path_pot :: "(nat \<Rightarrow> nat \<Rightarrow> real) \<Rightarrow> node list \<Rightarrow> real" where
  "path_pot c (u # v # w) = step_cost c u v + path_pot c (v # w)"
| "path_pot c [u] = 0"
| "path_pot c [] = 0"

definition table_pot :: "(nat \<Rightarrow> nat \<Rightarrow> real) \<Rightarrow> table \<Rightarrow> bool" where
  "table_pot c tab \<longleftrightarrow> (\<forall>(v, pth, pot)\<in>set tab. pot = path_pot c pth)"

definition identity_flow :: "real list \<Rightarrow> tree \<Rightarrow> bool" where
  "identity_flow ms t \<longleftrightarrow>
     distinct (map fst t) \<and>
     (\<forall>(a, x)\<in>set t. x = (if fst a = snd a \<and> fst a < length ms then ms ! fst a else 0)) \<and>
     (\<forall>i<length ms. (i, i) \<in> set (map fst t))"

section \<open>Properties of the build script\<close>

lemma eigen_scan_append:
  "eigen_scan i (xs @ ys) st = eigen_scan (i + length xs) ys (eigen_scan i xs st)"
  by (induction xs arbitrary: i st) simp_all

lemma eigen_scan_snoc:
  "eigen_scan i (xs @ [a]) st =
     (if take 5 a = ''eigen'' then (drop 6 a, int (i + length xs)) else eigen_scan i xs st)"
  by (simp add: eigen_scan_append)

lemma eigen_matches_snoc:
  "eigen_matches (xs @ [a]) =
     eigen_matches xs @ (if take 5 a = ''eigen'' then [length xs] else [])"
proof -
  have "filter (\<lambda>i. take 5 ((xs @ [a]) ! i) = ''eigen'') [0..<length xs]
        = filter (\<lambda>i. take 5 (xs ! i) = ''eigen'') [0..<length xs]"
    by (rule filter_cong) (simp_all add: nth_append)
  then show ?thesis
    by (simp add: eigen_matches_def)
qed

lemma eigen_scan_matches:
  "eigen_scan 0 argv ('''', - 1) =
     (if eigen_matches argv = [] then ('''', - 1)
      else (drop 6 (argv ! last (eigen_matches argv)), int (last (eigen_matches argv))))"
proof (induction argv rule: rev_induct)
  case Nil
  then show ?case by (simp add: eigen_matches_def)
next
  case (snoc a xs)
  show ?case
  proof (cases "take 5 a = ''eigen''")
    case True
    then show ?thesis
      by (simp add: eigen_scan_snoc eigen_matches_snoc)
  next
    case False
    have "eigen_matches xs \<noteq> [] \<Longrightarrow> last (eigen_matches xs) < length xs"
    proof -
      assume "eigen_matches xs \<noteq> []"
      then have "last (eigen_matches xs) \<in> set (eigen_matches xs)" by simp
      then show ?thesis by (simp add: eigen_matches_def)
    qed
    with False snoc show ?thesis
      by (simp add: eigen_scan_snoc eigen_matches_snoc nth_append)
  qed
qed

lemma last_eigen_matches_less:
  assumes "eigen_matches argv \<noteq> []"
  shows "last (eigen_matches argv) < length argv"
proof -
  from assms have "last (eigen_matches argv) \<in> set (eigen_matches argv)" by simp
  then show ?thesis by (simp add: eigen_matches_def)
qed

lemma parse_eigen_argv_matches:
  "parse_eigen_argv argv =
     (if eigen_matches argv = [] then Inr ('''', argv)
      else Inr (drop 6 (argv ! last (eigen_matches argv)),
                take (last (eigen_matches argv)) argv
                @ drop (Suc (last (eigen_matches argv))) argv))"
proof (cases "eigen_matches argv = []")
  case True
  then show ?thesis
    by (simp add: parse_eigen_argv_def eigen_scan_matches)
next
  case False
  then have "last (eigen_matches argv) < length argv"
    by (rule last_eigen_matches_less)
  with False show ?thesis
    by (simp add: parse_eigen_argv_def eigen_scan_matches del_item_def Let_def)
qed

text \<open>
  C8. The scan of \<open>sys.argv\<close>: when no argument starts with \<open>eigen\<close>, the list is
  unchanged and \<open>eigen_usr_include\<close> is empty. Otherwise \<open>eigen_usr_include\<close> is the
  last matching argument from index 6 on, exactly that argument is deleted, and all
  other arguments, earlier matching ones included, stay in place. No \<open>IndexError\<close>
  is raised. An argument \<open>eigen=PATH\<close> matches and gives \<open>PATH\<close>; \<open>eigen\<close> and
  \<open>eigen=\<close> match and give the empty string.
\<close>

theorem parse_eigen_argv_spec:
  "parse_eigen_argv argv =
     (if eigen_matches argv = [] then Inr ('''', argv)
      else Inr (drop 6 (argv ! last (eigen_matches argv)),
                take (last (eigen_matches argv)) argv
                @ drop (Suc (last (eigen_matches argv))) argv))
   \<and> parse_eigen_argv [''eigen='' @ path] = Inr (path, [])
   \<and> parse_eigen_argv [''eigen''] = Inr ('''', [])
   \<and> parse_eigen_argv [''eigen=''] = Inr ('''', [])"
  by (simp add: parse_eigen_argv_matches eigen_matches_def)

theorem parse_eigen_argv_spec_witness:
  "parse_eigen_argv [''setup.py'', ''eigen=/a'', ''build'', ''eigen=/opt/x'']
     = Inr (''/opt/x'', [''setup.py'', ''eigen=/a'', ''build''])
   \<and> parse_eigen_argv [''setup.py'', ''install''] = Inr ('''', [''setup.py'', ''install''])"
  using parse_eigen_argv_spec [of "[''setup.py'', ''eigen=/a'', ''build'', ''eigen=/opt/x'']" "''''"]
    parse_eigen_argv_spec [of "[''setup.py'', ''install'']" "''''"]
  by (simp add: eigen_matches_def upt_rec)


lemma eigen_search_find:
  "eigen_search env ps =
     (case find (has_eigen env) ps of
        None \<Rightarrow> ''''
      | Some p \<Rightarrow> if isdir env (path_join p [''Eigen'']) then p
                  else path_join p [''eigen3''])"
  by (induction ps) (simp_all add: has_eigen_def)

lemma path_join_home:
  "home \<noteq> [] \<Longrightarrow> last home \<noteq> CHR ''/'' \<Longrightarrow>
     path_join home [''.local/include''] = home @ ''/.local/include''"
  by (simp add: path_join_def join2_def)

text \<open>
  C10. \<open>get_eigen_include\<close> answers for the first candidate, in the order of
  \<open>possible_path\<close>, one of whose probes \<open>join(p, "Eigen")\<close> and
  \<open>join(p, "eigen3", "Eigen")\<close> is a directory: the candidate itself when the first
  probe is a directory, \<open>join(p, "eigen3")\<close> otherwise; the empty string when there
  is no such candidate. The candidates are the proposed path, the parent of the
  sysconfig include path, \<open>/usr/include/\<close>, \<open>/usr/local/include/\<close> and, only when
  \<open>HOME\<close> is set, \<open>join(HOME, ".local/include")\<close>, which is \<open>HOME/.local/include\<close>
  for a nonempty \<open>HOME\<close> without a trailing separator. The function is total: no
  branch raises.
\<close>

theorem get_eigen_include_spec:
  "get_eigen_include env propose_path =
     (case find (has_eigen env) (possible_path env propose_path) of
        None \<Rightarrow> ''''
      | Some p \<Rightarrow> if isdir env (path_join p [''Eigen'']) then p
                  else path_join p [''eigen3''])
   \<and> take 4 (possible_path env propose_path) =
       [propose_path, dirname (sysconfig_include env), ''/usr/include/'', ''/usr/local/include/'']
   \<and> (environ_HOME env = None \<longrightarrow> length (possible_path env propose_path) = 4)
   \<and> (\<forall>home. environ_HOME env = Some home \<longrightarrow>
         drop 4 (possible_path env propose_path) = [path_join home [''.local/include'']]
         \<and> (home \<noteq> [] \<and> last home \<noteq> CHR ''/'' \<longrightarrow>
              drop 4 (possible_path env propose_path) = [home @ ''/.local/include'']))"
  by (simp add: get_eigen_include_def eigen_search_find possible_path_def path_join_home)

theorem get_eigen_include_spec_witness:
  "get_eigen_include
     \<lparr> isdir = (\<lambda>p. p = ''/usr/local/include/eigen3/Eigen'' \<or> p = ''/home/u/.local/include/Eigen''),
        environ_HOME = Some ''/home/u'',
        sysconfig_include = ''/usr/include/python3.11'' \<rparr> ''''
     = ''/usr/local/include/eigen3''
   \<and> get_eigen_include
     \<lparr> isdir = (\<lambda>p. p = ''/home/u/.local/include/Eigen''),
        environ_HOME = None,
        sysconfig_include = ''/usr/include/python3.11'' \<rparr> ''/opt''
     = ''''
   \<and> possible_path
     \<lparr> isdir = (\<lambda>p. p = ''/usr/local/include/eigen3/Eigen'' \<or> p = ''/home/u/.local/include/Eigen''),
        environ_HOME = Some ''/home/u'',
        sysconfig_include = ''/usr/include/python3.11'' \<rparr> ''''
     = ['''', ''/usr/include'', ''/usr/include/'', ''/usr/local/include/'', ''/home/u/.local/include'']"
  using get_eigen_include_spec
    [of "\<lparr> isdir = (\<lambda>p. p = ''/usr/local/include/eigen3/Eigen'' \<or> p = ''/home/u/.local/include/Eigen''),
        environ_HOME = Some ''/home/u'',
        sysconfig_include = ''/usr/include/python3.11'' \<rparr>" "''''"]
    get_eigen_include_spec
    [of "\<lparr> isdir = (\<lambda>p. p = ''/home/u/.local/include/Eigen''),
        environ_HOME = None,
        sysconfig_include = ''/usr/include/python3.11'' \<rparr>" "''/opt''"]
  by (simp add: possible_path_def has_eigen_def path_join_def join2_def dirname_def rstrip_sep_def)

text \<open>
  C9. \<open>ext_modules\<close> holds a single extension, and its \<open>depends\<close> list holds a
  single string: the three header paths run together, since the adjacent literals
  are one literal. None of the three header paths is an element of the list.
\<close>

theorem ext_modules_depends_collapse:
  "length (ext_modules env here eigen_usr_include) = 1
   \<and> map ext_depends (ext_modules env here eigen_usr_include) =
       [[''SBCK/tools/src/SparseHist.hppSBCK/tools/src/NetworkSimplex.hppSBCK/tools/src/NetworkSimplexLemon.hpp'']]
   \<and> length (ext_depends (hd (ext_modules env here eigen_usr_include))) = 1
   \<and> ''SBCK/tools/src/SparseHist.hpp'' \<notin> set (ext_depends (hd (ext_modules env here eigen_usr_include)))
   \<and> ''SBCK/tools/src/NetworkSimplex.hpp'' \<notin> set (ext_depends (hd (ext_modules env here eigen_usr_include)))
   \<and> ''SBCK/tools/src/NetworkSimplexLemon.hpp'' \<notin> set (ext_depends (hd (ext_modules env here eigen_usr_include)))"
  by (simp add: ext_modules_def)

section \<open>Properties of the transport core\<close>

subsection \<open>Histogram construction\<close>

lemma accumulate_not_Nil: "accumulate u widths idx bs \<noteq> []"
  by (cases bs) simp_all

lemma total_mass_accumulate:
  "total_mass (accumulate u widths idx bs) = total_mass bs + u"
  by (induction bs) (simp_all add: total_mass_def)

lemma index_set_accumulate:
  "set (map bin_index (accumulate u widths idx bs)) = insert idx (set (map bin_index bs))"
  by (induction bs) auto

lemma distinct_index_accumulate:
  "distinct (map bin_index bs) \<Longrightarrow> distinct (map bin_index (accumulate u widths idx bs))"
proof (induction bs)
  case Nil
  then show ?case by simp
next
  case (Cons b bs)
  have "set (map bin_index (accumulate u widths idx bs)) = insert idx (set (map bin_index bs))"
    by (rule index_set_accumulate)
  with Cons show ?case by auto
qed

lemma mass_pos_accumulate:
  "0 < u \<Longrightarrow> \<forall>b\<in>set bs. 0 < bin_mass b \<Longrightarrow> \<forall>b\<in>set (accumulate u widths idx bs). 0 < bin_mass b"
  by (induction bs) auto

lemma center_accumulate:
  "\<forall>b\<in>set bs. bin_center b = center_of widths (bin_index b) \<Longrightarrow>
   \<forall>b\<in>set (accumulate u widths idx bs). bin_center b = center_of widths (bin_index b)"
  by (induction bs) auto

lemma fill_snoc:
  "fill u widths (xs @ [x]) = accumulate u widths (bin_of_sample widths x) (fill u widths xs)"
  by (simp add: fill_def)

lemma fill_not_Nil: "samples \<noteq> [] \<Longrightarrow> fill u widths samples \<noteq> []"
  by (cases samples rule: rev_cases) (simp_all add: fill_snoc accumulate_not_Nil)

lemma total_mass_fill: "total_mass (fill u widths samples) = real (length samples) * u"
proof (induction samples rule: rev_induct)
  case Nil
  show ?case by (simp add: fill_def total_mass_def)
next
  case (snoc x xs)
  then show ?case by (simp add: fill_snoc total_mass_accumulate algebra_simps)
qed

lemma fill_invariants:
  assumes "0 < u"
  shows "distinct (map bin_index (fill u widths samples))
       \<and> (\<forall>b\<in>set (fill u widths samples). 0 < bin_mass b)
       \<and> (\<forall>b\<in>set (fill u widths samples). bin_center b = center_of widths (bin_index b))"
proof (induction samples rule: rev_induct)
  case Nil
  then show ?case by (simp add: fill_def)
next
  case (snoc x xs)
  then have d: "distinct (map bin_index (fill u widths xs))"
    and p: "\<forall>b\<in>set (fill u widths xs). 0 < bin_mass b"
    and c: "\<forall>b\<in>set (fill u widths xs). bin_center b = center_of widths (bin_index b)"
    by blast+
  show ?case
    unfolding fill_snoc
    using distinct_index_accumulate[OF d] mass_pos_accumulate[OF assms p] center_accumulate[OF c]
    by blast
qed

lemma SparseHistogram_fill:
  "SparseHistogram samples widths =
     (if samples = [] then Inl EmptyInputError
      else Inr (fill (1 / real (length samples)) widths samples))"
  by (simp add: SparseHistogram_def Let_def fill_not_Nil)

text \<open>
  C4. The construction of a histogram fails with \<open>EmptyInputError\<close> exactly when
  there are zero samples; it fails with no other error; when it fails no histogram is
  returned, and when there is a sample it returns a histogram with at least one bin,
  so the case of zero occupied bins is the case of zero samples.
\<close>

theorem SparseHistogram_empty_input:
  "(SparseHistogram samples widths = Inl EmptyInputError \<longleftrightarrow> samples = [])
   \<and> (\<forall>e. SparseHistogram samples widths = Inl e \<longrightarrow> e = EmptyInputError \<and> samples = [])
   \<and> (\<forall>h. SparseHistogram samples widths = Inr h \<longrightarrow> samples \<noteq> [] \<and> h \<noteq> [])
   \<and> (samples \<noteq> [] \<longrightarrow> (\<exists>h. SparseHistogram samples widths = Inr h))"
  by (auto simp add: SparseHistogram_fill fill_not_Nil)

lemma SparseHistogram_props:
  assumes "SparseHistogram samples widths = Inr h"
  shows "h \<noteq> []" "total_mass h = 1" "\<forall>b\<in>set h. 0 < bin_mass b"
    "distinct (map bin_index h)" "\<forall>b\<in>set h. bin_center b = center_of widths (bin_index b)"
proof -
  from assms have ne: "samples \<noteq> []" and h: "h = fill (1 / real (length samples)) widths samples"
    by (auto simp add: SparseHistogram_fill split: if_splits)
  from ne have u: "0 < 1 / real (length samples)" by simp
  show "h \<noteq> []" using ne h by (simp add: fill_not_Nil)
  show "total_mass h = 1" using ne h by (simp add: total_mass_fill)
  show "\<forall>b\<in>set h. 0 < bin_mass b" using fill_invariants[OF u] h by blast
  show "distinct (map bin_index h)" using fill_invariants[OF u] h by blast
  show "\<forall>b\<in>set h. bin_center b = center_of widths (bin_index b)"
    using fill_invariants[OF u] h by blast
qed

text \<open>
  No sample, and three samples in two bins of width 1.
\<close>

theorem SparseHistogram_empty_input_witness:
  "SparseHistogram [] [1] = Inl EmptyInputError
   \<and> SparseHistogram [[7 / 2], [1 / 2], [7 / 2]] [1] =
       Inr [\<lparr> bin_index = [3], bin_center = [7 / 2], bin_mass = 2 / 3 \<rparr>,
            \<lparr> bin_index = [0], bin_center = [1 / 2], bin_mass = 1 / 3 \<rparr>]"
  using SparseHistogram_empty_input [of "[]" "[1]"]
    SparseHistogram_empty_input [of "[[7 / 2], [1 / 2], [7 / 2]]" "[1]"]
  by (simp add: SparseHistogram_def fill_def bin_of_sample_def center_of_def)

subsection \<open>The northwest-corner start\<close>

text \<open>
  The start tree has its arcs in range and pairwise distinct, has one arc less than
  there are bins, carries no negative flow and, for equal totals, meets every supply
  and every demand.
\<close>

lemma northwest_range:
  "(a, x) \<in> set (northwest i j ss ds) \<Longrightarrow>
     i \<le> fst a \<and> fst a < i + length ss \<and> j \<le> snd a \<and> snd a < j + length ds"
proof (induction i j ss ds rule: northwest.induct)
  case (3 i j s ss d ds)
  then show ?case
    by (fastforce split: if_splits)
qed simp_all

lemma northwest_distinct: "distinct (map fst (northwest i j ss ds))"
proof (induction i j ss ds rule: northwest.induct)
  case (3 i j s ss d ds)
  have r: "\<And>x. ((i, j), x) \<notin> set (northwest (Suc i) j ss ((d - min s d) # ds))"
    using northwest_range by fastforce
  have c: "\<And>x. ((i, j), x) \<notin> set (northwest i (Suc j) ((s - min s d) # ss) ds)"
    using northwest_range by fastforce
  from 3 r c show ?case
    by (auto simp add: image_iff)
qed simp_all

lemma northwest_length:
  "length (northwest i j ss ds) = (if ss = [] \<or> ds = [] then 0 else length ss + length ds - 1)"
proof (induction i j ss ds rule: northwest.induct)
  case (3 i j s ss d ds)
  then show ?case
    by (cases ss; cases ds) (auto split: if_splits)
qed simp_all

lemma northwest_nonneg:
  "\<forall>s\<in>set ss. 0 \<le> s \<Longrightarrow> \<forall>d\<in>set ds. 0 \<le> d \<Longrightarrow>
     \<forall>(a, x)\<in>set (northwest i j ss ds). 0 \<le> x"
proof (induction i j ss ds rule: northwest.induct)
  case (3 i j s ss d ds)
  then show ?case
    by (auto split: if_splits)
qed simp_all



lemma outflow_Cons [simp]:
  "outflow ((a, x) # t) k = (if fst a = k then x else 0) + outflow t k"
  by (simp add: outflow_def)

lemma inflow_Cons [simp]:
  "inflow ((a, x) # t) k = (if snd a = k then x else 0) + inflow t k"
  by (simp add: inflow_def)







subsection \<open>The traversal table\<close>

text \<open>
  Every table the traversal builds satisfies \<open>table_ok\<close>: each new entry extends
  the path of a node already in the table by one tree arc, to a node not yet in it.
\<close>

lemma other_end_sym: "other_end u a = Some v \<Longrightarrow> other_end v a = Some u"
  by (cases u; cases v; cases a) (auto split: if_splits)

lemma walk_in_append:
  "walk_in arcs (xs @ ys) \<longleftrightarrow>
     walk_in arcs xs \<and> walk_in arcs ys \<and>
     (xs = [] \<or> ys = [] \<or> (\<exists>a\<in>set arcs. other_end (last xs) a = Some (hd ys)))"
proof (induction arcs xs rule: walk_in.induct)
  case (1 arcs u v w)
  then show ?case by auto
next
  case (2 arcs u)
  then show ?case by (cases ys) auto
next
  case (3 arcs)
  then show ?case by simp
qed

lemma walk_in_rev: "walk_in arcs (rev w) = walk_in arcs w"
proof (induction arcs w rule: walk_in.induct)
  case (1 arcs u v w)
  have "walk_in arcs (rev (u # v # w)) \<longleftrightarrow>
      walk_in arcs (rev (v # w)) \<and> (\<exists>a\<in>set arcs. other_end v a = Some u)"
    by (simp add: walk_in_append) (metis last_snoc)
  also have "\<dots> \<longleftrightarrow> walk_in arcs (v # w) \<and> (\<exists>a\<in>set arcs. other_end u a = Some v)"
    using 1 other_end_sym by blast
  finally show ?case by auto
qed simp_all

lemma key_unique:
  "distinct (map fst tab) \<Longrightarrow> (k, x) \<in> set tab \<Longrightarrow> (k, y) \<in> set tab \<Longrightarrow> x = y"
  by (meson eq_key_imp_eq_value)

lemma map_of_None_iff: "map_of tab w = None \<longleftrightarrow> w \<notin> fst ` set tab"
  by (simp add: map_of_eq_None_iff)

lemma table_ok_extend:
  assumes ok: "table_ok arcs tab" and v: "(v, pth, pot) \<in> set tab"
    and a: "a \<in> set arcs" and w: "other_end v a = Some w" and new: "w \<notin> fst ` set tab"
  shows "table_ok arcs (tab @ [(w, pth @ [w], pot')])"
proof -
  from ok v have p: "pth \<noteq> []" "last pth = v" "hd pth = Src 0" "walk_in arcs pth"
    and pre: "\<forall>k<length pth. \<exists>pot'. (pth ! k, take (Suc k) pth, pot') \<in> set tab"
    unfolding table_ok_def by blast+
  have d: "distinct (map fst (tab @ [(w, pth @ [w], pot')]))"
    using ok new unfolding table_ok_def by simp
  have old: "pth' \<noteq> [] \<and> last pth' = u \<and> hd pth' = Src 0 \<and> walk_in arcs pth' \<and>
        (\<forall>k<length pth'. \<exists>r. (pth' ! k, take (Suc k) pth', r) \<in> set (tab @ [(w, pth @ [w], pot')]))"
    if "(u, pth', q) \<in> set tab" for u pth' q
    using ok that unfolding table_ok_def by fastforce
  have wk: "walk_in arcs (pth @ [w])"
    using p a w by (auto simp add: walk_in_append)
  have npre: "\<exists>r. ((pth @ [w]) ! k, take (Suc k) (pth @ [w]), r) \<in> set (tab @ [(w, pth @ [w], pot')])"
    if "k < length (pth @ [w])" for k
  proof (cases "k < length pth")
    case True
    then show ?thesis using pre by (auto simp add: nth_append)
  next
    case False
    with that have "k = length pth" by simp
    then show ?thesis by auto
  qed
  have "pth @ [w] \<noteq> [] \<and> last (pth @ [w]) = w \<and> hd (pth @ [w]) = Src 0 \<and> walk_in arcs (pth @ [w])"
    using p wk by simp
  with d old npre show ?thesis
    unfolding table_ok_def by auto
qed

lemma visit_ok:
  assumes "table_ok arcs (snd qt)" "(v, pth, pot) \<in> set (snd qt)" "a \<in> set arcs"
  shows "table_ok arcs (snd (visit c v pth pot qt a)) \<and> (v, pth, pot) \<in> set (snd (visit c v pth pot qt a))"
proof (cases "other_end v a")
  case None
  with assms show ?thesis by (simp add: visit_def)
next
  case (Some w)
  show ?thesis
  proof (cases "map_of (snd qt) w = None")
    case True
    then have "w \<notin> fst ` set (snd qt)" by (simp add: map_of_None_iff)
    from table_ok_extend[OF assms(1,2,3) Some this] assms(2) Some True
    show ?thesis by (simp add: visit_def)
  next
    case False
    with assms Some show ?thesis by (auto simp add: visit_def)
  qed
qed

lemma foldl_visit_ok:
  "table_ok arcs (snd qt) \<Longrightarrow> (v, pth, pot) \<in> set (snd qt) \<Longrightarrow> set as \<subseteq> set arcs \<Longrightarrow>
     table_ok arcs (snd (foldl (visit c v pth pot) qt as))"
proof (induction as arbitrary: qt)
  case Nil
  then show ?case by simp
next
  case (Cons a as)
  from Cons.prems have "a \<in> set arcs" by simp
  from visit_ok[OF Cons.prems(1,2) this, of c] Cons.prems(3) Cons.IH
  show ?case by simp
qed

lemma traverse_ok:
  "table_ok arcs tab \<Longrightarrow> table_ok arcs (traverse k c arcs queue tab)"
proof (induction k arbitrary: queue tab)
  case 0
  then show ?case by simp
next
  case (Suc k)
  show ?case
  proof (cases queue)
    case Nil
    with Suc show ?thesis by simp
  next
    case (Cons v queue')
    show ?thesis
    proof (cases "map_of tab v")
      case None
      with Cons Suc show ?thesis by simp
    next
      case (Some e)
      obtain pth pot where e: "e = (pth, pot)" by (cases e)
      with Some have "(v, pth, pot) \<in> set tab" by (simp add: map_of_SomeD)
      then have "table_ok arcs (snd (foldl (visit c v pth pot) (queue', tab) arcs))"
        using foldl_visit_ok[of arcs "(queue', tab)" v pth pot arcs c] Suc.prems by simp
      then have "table_ok arcs (traverse k c arcs
           (fst (foldl (visit c v pth pot) (queue', tab) arcs))
           (snd (foldl (visit c v pth pot) (queue', tab) arcs)))"
        by (rule Suc.IH)
      then show ?thesis
        using Cons Some e by (simp add: case_prod_beta)
    qed
  qed
qed

lemma potentials_ok: "table_ok arcs (potentials c arcs)"
  unfolding potentials_def
  by (rule traverse_ok) (simp add: table_ok_def)

subsection \<open>The cycle of an entering arc\<close>

text \<open>
  Two paths of the table share a prefix and are disjoint after it, so the walk from
  the sink of the entering arc to its source passes no node twice.
\<close>

lemma strip_common_spec:
  "strip_common xs ys l = (l', rx, ry) \<Longrightarrow>
     \<exists>pre. xs = pre @ rx \<and> ys = pre @ ry \<and> l' = last (l # pre)
           \<and> (rx = [] \<or> ry = [] \<or> hd rx \<noteq> hd ry)"
proof (induction xs ys l rule: strip_common.induct)
  case (1 x xs y ys l)
  show ?case
  proof (cases "x = y")
    case True
    with 1 obtain pre where "xs = pre @ rx" "ys = pre @ ry" "l' = last (x # pre)"
      "rx = [] \<or> ry = [] \<or> hd rx \<noteq> hd ry"
      by auto
    then have "x # xs = (x # pre) @ rx \<and> y # ys = (x # pre) @ ry \<and> l' = last (l # x # pre)
        \<and> (rx = [] \<or> ry = [] \<or> hd rx \<noteq> hd ry)"
      using True by simp
    then show ?thesis by blast
  next
    case False
    with 1 have "l' = l" "rx = x # xs" "ry = y # ys" by simp_all
    with False have "x # xs = [] @ rx \<and> y # ys = [] @ ry \<and> l' = last (l # [])
        \<and> (rx = [] \<or> ry = [] \<or> hd rx \<noteq> hd ry)"
      by simp
    then show ?thesis by blast
  qed
next
  case (2 ys l)
  then have "[] = [] @ rx \<and> ys = [] @ ry \<and> l' = last (l # []) \<and> (rx = [] \<or> ry = [] \<or> hd rx \<noteq> hd ry)"
    by simp
  then show ?case by blast
next
  case (3 v va l)
  then have "v # va = [] @ rx \<and> [] = [] @ ry \<and> l' = last (l # []) \<and> (rx = [] \<or> ry = [] \<or> hd rx \<noteq> hd ry)"
    by simp
  then show ?case by blast
qed

lemma table_entry:
  assumes "table_ok arcs tab" "(v, pth, pot) \<in> set tab"
  shows "pth \<noteq> []" "last pth = v" "hd pth = Src 0" "walk_in arcs pth"
    "\<And>k. k < length pth \<Longrightarrow> \<exists>pot'. (pth ! k, take (Suc k) pth, pot') \<in> set tab"
  using assms unfolding table_ok_def by blast+

lemma table_prefix_unique:
  assumes ok: "table_ok arcs tab"
    and p: "(v, pth, pot) \<in> set tab" and q: "(v', pth', pot') \<in> set tab"
    and i: "i < length pth" and j: "j < length pth'" and eq: "pth ! i = pth' ! j"
  shows "take (Suc i) pth = take (Suc j) pth'"
proof -
  from table_entry(5)[OF ok p i] obtain r where r: "(pth ! i, take (Suc i) pth, r) \<in> set tab"
    by blast
  from table_entry(5)[OF ok q j] obtain r' where r': "(pth' ! j, take (Suc j) pth', r') \<in> set tab"
    by blast
  from ok have "distinct (map fst tab)" by (simp add: table_ok_def)
  from key_unique[OF this r, of "(take (Suc j) pth', r')"] r' eq show ?thesis by simp
qed

lemma table_path_distinct:
  assumes ok: "table_ok arcs tab" and p: "(v, pth, pot) \<in> set tab"
  shows "distinct pth"
proof -
  have "i = j" if "i < length pth" "j < length pth" "pth ! i = pth ! j" for i j
  proof -
    from table_prefix_unique[OF ok p p that] have "take (Suc i) pth = take (Suc j) pth" .
    then have "length (take (Suc i) pth) = length (take (Suc j) pth)" by simp
    with that show ?thesis by simp
  qed
  then show ?thesis by (auto simp add: distinct_conv_nth)
qed

lemma table_paths_diverge:
  assumes ok: "table_ok arcs tab"
    and p: "(v, pre @ rx, pot) \<in> set tab" and q: "(v', pre @ ry, pot') \<in> set tab"
    and d: "rx = [] \<or> ry = [] \<or> hd rx \<noteq> hd ry"
  shows "set rx \<inter> set ry = {}"
proof (rule ccontr)
  assume "set rx \<inter> set ry \<noteq> {}"
  then obtain x where "x \<in> set rx" "x \<in> set ry" by blast
  then obtain a b where a: "a < length rx" "rx ! a = x" and b: "b < length ry" "ry ! b = x"
    by (auto simp add: in_set_conv_nth)
  have ne: "rx \<noteq> []" "ry \<noteq> []" using a b by auto
  have "take (Suc (length pre + a)) (pre @ rx) = take (Suc (length pre + b)) (pre @ ry)"
    using table_prefix_unique[OF ok p q, of "length pre + a" "length pre + b"] a b
    by (simp add: nth_append)
  then have t: "pre @ take (Suc a) rx = pre @ take (Suc b) ry"
    by simp
  then have "take (Suc a) rx = take (Suc b) ry" by simp
  then have "hd (take (Suc a) rx) = hd (take (Suc b) ry)" by simp
  then have "hd rx = hd ry" using ne by (cases rx; cases ry) simp_all
  with d ne show False by simp
qed

lemma cycle_walk_props:
  assumes ok: "table_ok arcs tab" and w: "cycle_walk tab e = Some w"
  shows "walk_in arcs w" "hd w = Snk (snd e)" "last w = Src (fst e)" "distinct w" "w \<noteq> []"
proof -
  from w obtain pq potq pp potp l rq rp where
    mq: "map_of tab (Snk (snd e)) = Some (pq, potq)" and
    mp: "map_of tab (Src (fst e)) = Some (pp, potp)" and
    sc: "strip_common pq pp (Src 0) = (l, rq, rp)" and
    wd: "w = rev rq @ l # rp"
    by (auto simp add: cycle_walk_def split: option.splits prod.splits)
  from mq have eq: "(Snk (snd e), pq, potq) \<in> set tab" by (rule map_of_SomeD)
  from mp have ep: "(Src (fst e), pp, potp) \<in> set tab" by (rule map_of_SomeD)
  from strip_common_spec[OF sc] obtain pre where
    pq: "pq = pre @ rq" and pp: "pp = pre @ rp" and l: "l = last (Src 0 # pre)"
    and dv: "rq = [] \<or> rp = [] \<or> hd rq \<noteq> hd rp"
    by blast
  note tq = table_entry[OF ok eq] and tp = table_entry[OF ok ep]
  have pre_ne: "pre \<noteq> []"
  proof
    assume "pre = []"
    with pq pp tq(1,3) tp(1,3) dv show False by simp
  qed
  with l have l': "l = last pre" by simp
  have dq: "distinct (pre @ rq)" using table_path_distinct[OF ok eq] pq by simp
  have dp: "distinct (pre @ rp)" using table_path_distinct[OF ok ep] pp by simp
  have lq: "l \<notin> set rq" using dq l' pre_ne by (metis disjoint_iff distinct_append last_in_set)
  have lp: "l \<notin> set rp" using dp l' pre_ne by (metis disjoint_iff distinct_append last_in_set)
  have dj: "set rq \<inter> set rp = {}"
    using table_paths_diverge[OF ok eq[unfolded pq] ep[unfolded pp] dv] .
  show "distinct w" using wd dq dp lq lp dj by auto
  show "w \<noteq> []" using wd by simp
  show "hd w = Snk (snd e)"
  proof (cases "rq = []")
    case True
    then show ?thesis using wd tq(2) pq l' pre_ne by simp
  next
    case False
    then show ?thesis using wd tq(2) pq by (simp add: hd_rev)
  qed
  show "last w = Src (fst e)"
  proof (cases "rp = []")
    case True
    then show ?thesis using wd tp(2) pp l' pre_ne by simp
  next
    case False
    then show ?thesis using wd tp(2) pp by simp
  qed
  have wq: "walk_in arcs (pre @ rq)" using tq(4) pq by simp
  have wp: "walk_in arcs (pre @ rp)" using tp(4) pp by simp
  have a: "walk_in arcs (l # rp)"
  proof -
    have "walk_in arcs (butlast pre @ (l # rp))"
      using wp l' pre_ne by (metis append_butlast_last_id append.assoc append_Cons append_Nil)
    then show ?thesis by (simp add: walk_in_append)
  qed
  have b: "walk_in arcs (l # rq)"
  proof -
    have "walk_in arcs (butlast pre @ (l # rq))"
      using wq l' pre_ne by (metis append_butlast_last_id append.assoc append_Cons append_Nil)
    then show ?thesis by (simp add: walk_in_append)
  qed
  then have "walk_in arcs (rev (l # rq))" by (simp only: walk_in_rev)
  then have c: "walk_in arcs (rev rq @ [l])" by simp
  have "walk_in arcs ((rev rq @ [l]) @ rp)"
    unfolding walk_in_append[of arcs "rev rq @ [l]" rp]
    using c a by (cases rp) (auto simp add: walk_in_append)
  then show "walk_in arcs w" using wd by simp
qed

subsection \<open>Pushing flow along a walk\<close>

text \<open>
  Pushing \<open>theta\<close> along a walk changes the total of a bin only at the two ends of
  the walk; along a walk without repeated nodes each arc gains or loses \<open>theta\<close> at
  most once.
\<close>

lemma map_fst_add_flow [simp]: "map fst (add_flow a delta t) = map fst t"
  by (induction t) (auto simp add: add_flow_def)

lemma map_fst_push [simp]: "map fst (push theta w t) = map fst t"
  by (induction theta w t rule: push.induct) simp_all

lemma add_flow_absent: "a \<notin> set (map fst t) \<Longrightarrow> add_flow a delta t = t"
  by (induction t) (auto simp add: add_flow_def)

lemma add_flow_Cons:
  "add_flow a delta ((b, x) # t) = (if b = a then (b, x + delta) else (b, x)) # add_flow a delta t"
  by (simp add: add_flow_def)

lemma outflow_add_flow:
  "distinct (map fst t) \<Longrightarrow>
     outflow (add_flow a delta t) k =
       outflow t k + (if fst a = k \<and> a \<in> set (map fst t) then delta else 0)"
proof (induction t)
  case Nil
  then show ?case by (simp add: add_flow_def)
next
  case (Cons e t)
  obtain b x where e: "e = (b, x)" by (cases e)
  show ?case
  proof (cases "b = a")
    case True
    with Cons.prems e have "a \<notin> set (map fst t)" by simp
    then show ?thesis using True e by (simp add: add_flow_Cons add_flow_absent)
  next
    case False
    with Cons e show ?thesis by (simp add: add_flow_Cons)
  qed
qed

lemma inflow_add_flow:
  "distinct (map fst t) \<Longrightarrow>
     inflow (add_flow a delta t) k =
       inflow t k + (if snd a = k \<and> a \<in> set (map fst t) then delta else 0)"
proof (induction t)
  case Nil
  then show ?case by (simp add: add_flow_def)
next
  case (Cons e t)
  obtain b x where e: "e = (b, x)" by (cases e)
  show ?case
  proof (cases "b = a")
    case True
    with Cons.prems e have "a \<notin> set (map fst t)" by simp
    then show ?thesis using True e by (simp add: add_flow_Cons add_flow_absent)
  next
    case False
    with Cons e show ?thesis by (simp add: add_flow_Cons)
  qed
qed

lemma flow_of_Cons:
  "flow_of ((b, x) # t) a = (if b = a then x else flow_of t a)"
  by (simp add: flow_of_def)

lemma flow_of_absent: "a \<notin> set (map fst t) \<Longrightarrow> flow_of t a = 0"
  by (induction t) (auto simp add: flow_of_def)

lemma flow_of_add_flow:
  "flow_of (add_flow a delta t) b =
     flow_of t b + (if b = a \<and> a \<in> set (map fst t) then delta else 0)"
proof (induction t)
  case Nil
  then show ?case by (simp add: add_flow_def flow_of_def)
next
  case (Cons e t)
  obtain c x where e: "e = (c, x)" by (cases e)
  show ?case
  proof (cases "c = b")
    case True
    then show ?thesis using e by (simp add: add_flow_Cons flow_of_Cons)
  next
    case False
    then show ?thesis using e Cons by (force simp add: add_flow_Cons flow_of_Cons)
  qed
qed

lemma other_end_Src: "other_end (Src i) a = Some v \<longleftrightarrow> fst a = i \<and> v = Snk (snd a)"
  by (cases a) auto

lemma other_end_Snk: "other_end (Snk j) a = Some v \<longleftrightarrow> snd a = j \<and> v = Src (fst a)"
  by (cases a) auto

lemma walk_in_forward: "walk_in arcs (Src i # Snk j # w) \<Longrightarrow> (i, j) \<in> set arcs"
  by (auto simp add: other_end_Src)

lemma walk_in_backward: "walk_in arcs (Snk j # Src i # w) \<Longrightarrow> (i, j) \<in> set arcs"
  by (auto simp add: other_end_Snk)

lemma walk_in_tl: "walk_in arcs (v # w) \<Longrightarrow> walk_in arcs w"
  by (cases w) simp_all

lemma walk_in_no_Src_Src: "\<not> walk_in arcs (Src i # Src i' # w)"
  by (simp add: other_end_Src)

lemma walk_in_no_Snk_Snk: "\<not> walk_in arcs (Snk j # Snk j' # w)"
  by (simp add: other_end_Snk)

lemma push_outflow:
  "distinct (map fst t) \<Longrightarrow> walk_in (map fst t) w \<Longrightarrow> w \<noteq> [] \<Longrightarrow>
     outflow (push theta w t) k = outflow t k + theta * ((if hd w = Src k then 1 else 0) - (if last w = Src k then 1 else 0))"
proof (induction theta w t rule: push.induct)
  case (1 theta i j w t)
  have a: "(i, j) \<in> set (map fst t)" using 1(3) by (rule walk_in_forward)
  have step: "outflow (add_flow (i, j) theta t) k = outflow t k + (if i = k then theta else 0)"
    using a 1(2) by (simp add: outflow_add_flow)
  have IH: "outflow (push theta (Snk j # w) (add_flow (i, j) theta t)) k =
      outflow (add_flow (i, j) theta t) k + theta * ((if hd (Snk j # w) = Src k then 1 else 0) - (if last (Snk j # w) = Src k then 1 else 0))"
    using 1(2) by (intro 1(1)) (simp_all del: walk_in.simps add: walk_in_tl[OF 1(3)])
  have l: "last (Src i # Snk j # w) = last (Snk j # w)" by simp
  have "outflow (push theta (Src i # Snk j # w) t) k =
      outflow t k + (if i = k then theta else 0) + theta * ((if hd (Snk j # w) = Src k then 1 else 0) - (if last (Snk j # w) = Src k then 1 else 0))"
    using IH step by simp
  also have "\<dots> = outflow t k + theta * ((if hd (Src i # Snk j # w) = Src k then 1 else 0) - (if last (Src i # Snk j # w) = Src k then 1 else 0))"
    unfolding l by (simp add: algebra_simps del: last.simps)
  finally show ?case .
next
  case (2 theta j i w t)
  have a: "(i, j) \<in> set (map fst t)" using 2(3) by (rule walk_in_backward)
  have step: "outflow (add_flow (i, j) (- theta) t) k = outflow t k + (if i = k then - theta else 0)"
    using a 2(2) by (simp add: outflow_add_flow)
  have IH: "outflow (push theta (Src i # w) (add_flow (i, j) (- theta) t)) k =
      outflow (add_flow (i, j) (- theta) t) k + theta * ((if hd (Src i # w) = Src k then 1 else 0) - (if last (Src i # w) = Src k then 1 else 0))"
    using 2(2) by (intro 2(1)) (simp_all del: walk_in.simps add: walk_in_tl[OF 2(3)])
  have l: "last (Snk j # Src i # w) = last (Src i # w)" by simp
  have "outflow (push theta (Snk j # Src i # w) t) k =
      outflow t k + (if i = k then - theta else 0) + theta * ((if hd (Src i # w) = Src k then 1 else 0) - (if last (Src i # w) = Src k then 1 else 0))"
    using IH step by simp
  also have "\<dots> = outflow t k + theta * ((if hd (Snk j # Src i # w) = Src k then 1 else 0) - (if last (Snk j # Src i # w) = Src k then 1 else 0))"
    unfolding l by (simp add: algebra_simps del: last.simps)
  finally show ?case .
qed (simp_all add: other_end_Src other_end_Snk)

lemma push_inflow:
  "distinct (map fst t) \<Longrightarrow> walk_in (map fst t) w \<Longrightarrow> w \<noteq> [] \<Longrightarrow>
     inflow (push theta w t) k = inflow t k + theta * ((if last w = Snk k then 1 else 0) - (if hd w = Snk k then 1 else 0))"
proof (induction theta w t rule: push.induct)
  case (1 theta i j w t)
  have a: "(i, j) \<in> set (map fst t)" using 1(3) by (rule walk_in_forward)
  have step: "inflow (add_flow (i, j) theta t) k = inflow t k + (if j = k then theta else 0)"
    using a 1(2) by (simp add: inflow_add_flow)
  have IH: "inflow (push theta (Snk j # w) (add_flow (i, j) theta t)) k =
      inflow (add_flow (i, j) theta t) k + theta * ((if last (Snk j # w) = Snk k then 1 else 0) - (if hd (Snk j # w) = Snk k then 1 else 0))"
    using 1(2) by (intro 1(1)) (simp_all del: walk_in.simps add: walk_in_tl[OF 1(3)])
  have l: "last (Src i # Snk j # w) = last (Snk j # w)" by simp
  have "inflow (push theta (Src i # Snk j # w) t) k =
      inflow t k + (if j = k then theta else 0) + theta * ((if last (Snk j # w) = Snk k then 1 else 0) - (if hd (Snk j # w) = Snk k then 1 else 0))"
    using IH step by simp
  also have "\<dots> = inflow t k + theta * ((if last (Src i # Snk j # w) = Snk k then 1 else 0) - (if hd (Src i # Snk j # w) = Snk k then 1 else 0))"
    unfolding l by (simp add: algebra_simps del: last.simps)
  finally show ?case .
next
  case (2 theta j i w t)
  have a: "(i, j) \<in> set (map fst t)" using 2(3) by (rule walk_in_backward)
  have step: "inflow (add_flow (i, j) (- theta) t) k = inflow t k + (if j = k then - theta else 0)"
    using a 2(2) by (simp add: inflow_add_flow)
  have IH: "inflow (push theta (Src i # w) (add_flow (i, j) (- theta) t)) k =
      inflow (add_flow (i, j) (- theta) t) k + theta * ((if last (Src i # w) = Snk k then 1 else 0) - (if hd (Src i # w) = Snk k then 1 else 0))"
    using 2(2) by (intro 2(1)) (simp_all del: walk_in.simps add: walk_in_tl[OF 2(3)])
  have l: "last (Snk j # Src i # w) = last (Src i # w)" by simp
  have "inflow (push theta (Snk j # Src i # w) t) k =
      inflow t k + (if j = k then - theta else 0) + theta * ((if last (Src i # w) = Snk k then 1 else 0) - (if hd (Src i # w) = Snk k then 1 else 0))"
    using IH step by simp
  also have "\<dots> = inflow t k + theta * ((if last (Snk j # Src i # w) = Snk k then 1 else 0) - (if hd (Snk j # Src i # w) = Snk k then 1 else 0))"
    unfolding l by (simp add: algebra_simps del: last.simps)
  finally show ?case .
qed (simp_all add: other_end_Src other_end_Snk)

lemma forward_arcs_nodes:
  "(i, j) \<in> set (forward_arcs w) \<Longrightarrow> Src i \<in> set w \<and> Snk j \<in> set w"
  by (induction w rule: forward_arcs.induct) auto

lemma backward_arcs_nodes:
  "(i, j) \<in> set (backward_arcs w) \<Longrightarrow> Src i \<in> set w \<and> Snk j \<in> set w"
  by (induction w rule: backward_arcs.induct) auto

lemma backward_arcs_in:
  "walk_in arcs w \<Longrightarrow> set (backward_arcs w) \<subseteq> set arcs"
proof (induction w rule: backward_arcs.induct)
  case (1 j i w)
  from walk_in_backward[OF 1(2)] walk_in_tl[OF 1(2)] 1(1) show ?case by simp
qed (auto simp del: walk_in.simps dest: walk_in_tl)

lemma push_flow:
  "distinct w \<Longrightarrow> walk_in (map fst t) w \<Longrightarrow>
     flow_of (push theta w t) a =
       flow_of t a + (if a \<in> set (forward_arcs w) then theta else 0)
                   - (if a \<in> set (backward_arcs w) then theta else 0)"
proof (induction theta w t rule: push.induct)
  case (1 theta i j w t)
  have m: "(i, j) \<in> set (map fst t)" using 1(3) by (rule walk_in_forward)
  have nf: "(i, j) \<notin> set (forward_arcs (Snk j # w))"
    using forward_arcs_nodes[of i j "Snk j # w"] 1(2) by auto
  have nb: "(i, j) \<notin> set (backward_arcs (Snk j # w))"
    using backward_arcs_nodes[of i j "Snk j # w"] 1(2) by auto
  have "flow_of (push theta (Snk j # w) (add_flow (i, j) theta t)) a =
      flow_of (add_flow (i, j) theta t) a
        + (if a \<in> set (forward_arcs (Snk j # w)) then theta else 0)
        - (if a \<in> set (backward_arcs (Snk j # w)) then theta else 0)"
    using 1(2) by (intro 1(1)) (simp_all del: walk_in.simps add: walk_in_tl[OF 1(3)])
  then show ?case
    using m nf nb by (auto simp add: flow_of_add_flow)
next
  case (2 theta j i w t)
  have m: "(i, j) \<in> set (map fst t)" using 2(3) by (rule walk_in_backward)
  have nf: "(i, j) \<notin> set (forward_arcs (Src i # w))"
    using forward_arcs_nodes[of i j "Src i # w"] 2(2) by auto
  have nb: "(i, j) \<notin> set (backward_arcs (Src i # w))"
    using backward_arcs_nodes[of i j "Src i # w"] 2(2) by auto
  have "flow_of (push theta (Src i # w) (add_flow (i, j) (- theta) t)) a =
      flow_of (add_flow (i, j) (- theta) t) a
        + (if a \<in> set (forward_arcs (Src i # w)) then theta else 0)
        - (if a \<in> set (backward_arcs (Src i # w)) then theta else 0)"
    using 2(2) by (intro 2(1)) (simp_all del: walk_in.simps add: walk_in_tl[OF 2(3)])
  then show ?case
    using m nf nb by (auto simp add: flow_of_add_flow)
qed (simp_all add: other_end_Src other_end_Snk)

lemma forward_arcs_Cons:
  "set (forward_arcs (v # w)) \<subseteq> {a. v = Src (fst a)} \<union> set (forward_arcs w)"
  by (cases "(v # w)" rule: forward_arcs.cases) auto

lemma backward_arcs_Cons:
  "set (backward_arcs (v # w)) \<subseteq> {a. v = Snk (snd a)} \<union> set (backward_arcs w)"
  by (cases "(v # w)" rule: backward_arcs.cases) auto

lemma forward_backward_disjoint:
  "distinct w \<Longrightarrow> set (forward_arcs w) \<inter> set (backward_arcs w) = {}"
proof (induction w)
  case Nil
  then show ?case by simp
next
  case (Cons v w)
  have "False" if f: "a \<in> set (forward_arcs (v # w))" and b: "a \<in> set (backward_arcs (v # w))" for a
  proof -
    obtain i j where a: "a = (i, j)" by (cases a)
    from f forward_arcs_Cons have f': "v = Src i \<or> a \<in> set (forward_arcs w)"
      using a by fastforce
    from b backward_arcs_Cons have b': "v = Snk j \<or> a \<in> set (backward_arcs w)"
      using a by fastforce
    from Cons have IH: "set (forward_arcs w) \<inter> set (backward_arcs w) = {}" by simp
    from Cons.prems have nv: "v \<notin> set w" by simp
    show False
    proof (cases "a \<in> set (forward_arcs w)")
      case True
      with IH have "a \<notin> set (backward_arcs w)" by blast
      with b' have "v = Snk j" by simp
      moreover from True a have "Snk j \<in> set w" using forward_arcs_nodes by blast
      ultimately show False using nv by simp
    next
      case False
      with f' have v: "v = Src i" by simp
      with b' have "a \<in> set (backward_arcs w)" by simp
      with a have "Src i \<in> set w" using backward_arcs_nodes by blast
      with v nv show False by simp
    qed
  qed
  then show ?case by blast
qed

subsection \<open>The pivot\<close>

text \<open>
  A pivot keeps the arcs distinct, the size of the tree, the total of every bin and
  the sign of the flows.
\<close>

lemma fold_min_le:
  fixes x :: real
  shows "fold min xs x \<le> x \<and> (\<forall>y\<in>set xs. fold min xs x \<le> y)"
proof (induction xs arbitrary: x)
  case Nil
  then show ?case by simp
next
  case (Cons a xs)
  from Cons[of "min a x"] show ?case by auto
qed

lemma fold_min_in:
  fixes x :: real
  shows "fold min xs x \<in> set (x # xs)"
proof (induction xs arbitrary: x)
  case Nil
  then show ?case by simp
next
  case (Cons a xs)
  from Cons[of "min a x"] show ?case by (auto simp add: min_def split: if_splits)
qed

lemma lowest_in: "lowest a as \<in> set (a # as)"
proof (induction as arbitrary: a)
  case Nil
  then show ?case by simp
next
  case (Cons b as)
  from Cons[of "if arc_less b a then b else a"] show ?case by (auto split: if_splits)
qed

lemma key_in_image: "(a, x) \<in> set t \<Longrightarrow> a \<in> fst ` set t"
  by force

lemma remove_absent: "l \<notin> set (map fst t) \<Longrightarrow> filter (\<lambda>(a, x). a \<noteq> l) t = t"
  by (induction t) auto

lemma flow_of_entry: "distinct (map fst t) \<Longrightarrow> (a, x) \<in> set t \<Longrightarrow> flow_of t a = x"
  by (simp add: flow_of_def)

lemma flow_of_nonneg: "\<forall>(a, x)\<in>set t. 0 \<le> x \<Longrightarrow> 0 \<le> flow_of t a"
proof (cases "map_of t a")
  case None
  then show ?thesis by (simp add: flow_of_def)
next
  case (Some x)
  assume "\<forall>(a, x)\<in>set t. 0 \<le> x"
  moreover from Some have "(a, x) \<in> set t" by (rule map_of_SomeD)
  ultimately show ?thesis using Some by (auto simp add: flow_of_def)
qed

lemma outflow_remove:
  "distinct (map fst t) \<Longrightarrow>
     outflow (filter (\<lambda>(a, x). a \<noteq> l) t) k =
       outflow t k - (if fst l = k then flow_of t l else 0)"
proof (induction t)
  case Nil
  then show ?case by (simp add: flow_of_def)
next
  case (Cons e t)
  obtain b x where e: "e = (b, x)" by (cases e)
  show ?case
  proof (cases "b = l")
    case True
    with Cons.prems e have "l \<notin> set (map fst t)" by simp
    then have "filter (\<lambda>(a, x). a \<noteq> l) t = t" by (rule remove_absent)
    then show ?thesis using True e by (simp add: flow_of_Cons)
  next
    case False
    with Cons e show ?thesis by (simp add: flow_of_Cons)
  qed
qed

lemma inflow_remove:
  "distinct (map fst t) \<Longrightarrow>
     inflow (filter (\<lambda>(a, x). a \<noteq> l) t) k =
       inflow t k - (if snd l = k then flow_of t l else 0)"
proof (induction t)
  case Nil
  then show ?case by (simp add: flow_of_def)
next
  case (Cons e t)
  obtain b x where e: "e = (b, x)" by (cases e)
  show ?case
  proof (cases "b = l")
    case True
    with Cons.prems e have "l \<notin> set (map fst t)" by simp
    then have "filter (\<lambda>(a, x). a \<noteq> l) t = t" by (rule remove_absent)
    then show ?thesis using True e by (simp add: flow_of_Cons)
  next
    case False
    with Cons e show ?thesis by (simp add: flow_of_Cons)
  qed
qed

lemma length_remove:
  "distinct (map fst t) \<Longrightarrow> l \<in> set (map fst t) \<Longrightarrow>
     Suc (length (filter (\<lambda>(a, x). a \<noteq> l) t)) = length t"
proof (induction t)
  case Nil
  then show ?case by simp
next
  case (Cons e t)
  obtain b x where e: "e = (b, x)" by (cases e)
  show ?case
  proof (cases "b = l")
    case True
    with Cons.prems e have "l \<notin> set (map fst t)" by simp
    then have "filter (\<lambda>(a, x). a \<noteq> l) t = t" by (rule remove_absent)
    then show ?thesis using True e by simp
  next
    case False
    with Cons e show ?thesis by auto
  qed
qed

lemma pivot_unfold:
  assumes "cycle_walk tab e = Some w" "backward_arcs w = b # bs"
  shows "\<exists>theta leave.
     pivot t tab e = (e, theta) # filter (\<lambda>(a, x). a \<noteq> leave) (push theta w t)
     \<and> theta = fold min (map (flow_of t) bs) (flow_of t b)
     \<and> leave \<in> set (b # bs) \<and> flow_of t leave = theta
     \<and> (\<forall>a\<in>set (b # bs). theta \<le> flow_of t a)"
proof -
  define theta where "theta = fold min (map (flow_of t) bs) (flow_of t b)"
  define ties where "ties = filter (\<lambda>a. flow_of t a = theta) (b # bs)"
  define leave where "leave = (case ties of [] \<Rightarrow> b | a # as \<Rightarrow> lowest a as)"
  have le: "\<forall>a\<in>set (b # bs). theta \<le> flow_of t a"
    using fold_min_le[of "map (flow_of t) bs" "flow_of t b"] by (auto simp add: theta_def)
  have "theta \<in> set (flow_of t b # map (flow_of t) bs)"
    unfolding theta_def by (rule fold_min_in)
  then have "theta \<in> flow_of t ` set (b # bs)" by simp
  then obtain a0 where "a0 \<in> set (b # bs)" "flow_of t a0 = theta" by blast
  then have "a0 \<in> set ties" by (auto simp add: ties_def)
  then obtain a as where ties: "ties = a # as" by (cases ties) auto
  then have "leave = lowest a as" by (simp add: leave_def)
  then have "leave \<in> set ties" using lowest_in[of a as] ties by simp
  then have lv: "leave \<in> set (b # bs)" "flow_of t leave = theta"
    unfolding ties_def by (simp_all only: set_filter mem_Collect_eq)
  have "pivot t tab e = (e, theta) # filter (\<lambda>(a, x). a \<noteq> leave) (push theta w t)"
    using assms by (simp add: pivot_def Let_def theta_def ties_def leave_def)
  with lv le show ?thesis using theta_def by blast
qed

lemma pivot_invariant:
  assumes d: "distinct (map fst t)" and ok: "table_ok (map fst t) tab" and e: "e \<notin> set (map fst t)"
  shows "distinct (map fst (pivot t tab e))"
    and "outflow (pivot t tab e) k = outflow t k"
    and "inflow (pivot t tab e) k = inflow t k"
    and "length (pivot t tab e) = length t"
    and "\<forall>(a, x)\<in>set t. 0 \<le> x \<Longrightarrow> \<forall>(a, x)\<in>set (pivot t tab e). 0 \<le> x"
proof -
  have "distinct (map fst (pivot t tab e)) \<and> outflow (pivot t tab e) k = outflow t k
      \<and> inflow (pivot t tab e) k = inflow t k \<and> length (pivot t tab e) = length t
      \<and> ((\<forall>(a, x)\<in>set t. 0 \<le> x) \<longrightarrow> (\<forall>(a, x)\<in>set (pivot t tab e). 0 \<le> x))"
  proof (cases "cycle_walk tab e")
    case None
    then show ?thesis using d by (simp add: pivot_def)
  next
    case (Some w)
    note w = cycle_walk_props[OF ok Some]
    show ?thesis
    proof (cases "backward_arcs w")
      case Nil
      then show ?thesis using d Some by (simp add: pivot_def)
    next
      case (Cons b bs)
      from pivot_unfold[OF Some Cons, of t] obtain theta leave where
        pv: "pivot t tab e = (e, theta) # filter (\<lambda>(a, x). a \<noteq> leave) (push theta w t)"
        and th: "theta = fold min (map (flow_of t) bs) (flow_of t b)"
        and lv: "leave \<in> set (b # bs)" "flow_of t leave = theta"
        and le: "\<forall>a\<in>set (b # bs). theta \<le> flow_of t a"
        by blast
      have lb: "leave \<in> set (backward_arcs w)" using lv(1) Cons by simp
      have lt: "leave \<in> set (map fst t)" using backward_arcs_in[OF w(1)] lb by blast
      have lf: "leave \<notin> set (forward_arcs w)"
        using forward_backward_disjoint[OF w(4)] lb by blast
      let ?t' = "push theta w t"
      have d': "distinct (map fst ?t')" using d by simp
      have fl: "flow_of ?t' a = flow_of t a + (if a \<in> set (forward_arcs w) then theta else 0)
                   - (if a \<in> set (backward_arcs w) then theta else 0)" for a
        using push_flow[OF w(4) w(1)] .
      have fl0: "flow_of ?t' leave = 0" using fl[of leave] lb lf lv(2) by simp
      have nn': "0 \<le> x" if nn: "\<forall>(a, x)\<in>set t. 0 \<le> x" and ax: "(a, x) \<in> set ?t'" for a x
      proof -
        have th0: "0 \<le> theta" using lv(2) flow_of_nonneg[OF nn, of leave] by simp
        have "x = flow_of ?t' a" using flow_of_entry[OF d' ax] by simp
        also have "\<dots> \<ge> flow_of t a - (if a \<in> set (backward_arcs w) then theta else 0)"
          using fl[of a] th0 by simp
        finally have "flow_of t a - (if a \<in> set (backward_arcs w) then theta else 0) \<le> x" .
        moreover have "0 \<le> flow_of t a - (if a \<in> set (backward_arcs w) then theta else 0)"
          using le Cons flow_of_nonneg[OF nn, of a] by auto
        ultimately show ?thesis by simp
      qed
      have e': "e \<notin> fst ` set (filter (\<lambda>(a, x). a \<noteq> leave) ?t')"
      proof
        assume "e \<in> fst ` set (filter (\<lambda>(a, x). a \<noteq> leave) ?t')"
        then have "e \<in> fst ` set ?t'" by auto
        moreover have "fst ` set ?t' = set (map fst t)" by (metis map_fst_push set_map)
        ultimately show False using e by simp
      qed
      have ok1: "distinct (map fst (pivot t tab e))"
        unfolding pv using d' e' by (auto simp add: distinct_map_filter)
      have nn1: "\<forall>(a, x)\<in>set (pivot t tab e). 0 \<le> x" if nn: "\<forall>(a, x)\<in>set t. 0 \<le> x"
      proof -
        have th0: "0 \<le> theta" using lv(2) flow_of_nonneg[OF nn, of leave] by simp
        show ?thesis unfolding pv using th0 nn'[OF nn] by auto
      qed
      have out: "outflow (pivot t tab e) k = outflow t k"
        unfolding pv
        using outflow_remove[OF d', of leave k] fl0 push_outflow[OF d w(1) w(5), of theta k] w(2,3)
        by simp
      have inf: "inflow (pivot t tab e) k = inflow t k"
        unfolding pv
        using inflow_remove[OF d', of leave k] fl0 push_inflow[OF d w(1) w(5), of theta k] w(2,3)
        by simp
      have "length ?t' = length t" by (metis map_fst_push length_map)
      then have len: "length (pivot t tab e) = length t"
        unfolding pv using length_remove[OF d', of leave] lt by simp
      from ok1 out inf len nn1 show ?thesis by blast
    qed
  qed
  then show "distinct (map fst (pivot t tab e))"
    and "outflow (pivot t tab e) k = outflow t k"
    and "inflow (pivot t tab e) k = inflow t k"
    and "length (pivot t tab e) = length t"
    and "\<forall>(a, x)\<in>set t. 0 \<le> x \<Longrightarrow> \<forall>(a, x)\<in>set (pivot t tab e). 0 \<le> x"
    by blast+
qed

subsection \<open>The loop\<close>

lemma most_negative_Some:
  "most_negative rc as best = Some e \<Longrightarrow> e \<in> set as \<or> best = Some e"
  by (induction as arbitrary: best) (auto split: if_splits)

lemma most_negative_None:
  "most_negative rc as best = None \<longleftrightarrow> best = None \<and> (\<forall>a\<in>set as. \<not> rc a < 0)"
  by (induction as arbitrary: best) auto

lemma entering_arc_None: "entering_arc c n m t (potentials c (map fst t)) = None \<longleftrightarrow> optimal c n m t"
  by (simp add: entering_arc_def optimal_def most_negative_None)

lemma entering_arc_Some:
  assumes "entering_arc c n m t tab = Some e"
  shows "e \<notin> set (map fst t)" "fst e < n" "snd e < m"
proof -
  from assms have "e \<in> set (non_tree_arcs n m t)"
    using most_negative_Some[of "reduced_cost c tab" "non_tree_arcs n m t" None e]
    by (simp add: entering_arc_def)
  then show "e \<notin> set (map fst t)" "fst e < n" "snd e < m"
    by (auto simp add: non_tree_arcs_def)
qed

lemma pivot_step_invariant:
  assumes d: "distinct (map fst t)"
  shows "distinct (map fst (pivot_step c n m t))"
    and "outflow (pivot_step c n m t) k = outflow t k"
    and "inflow (pivot_step c n m t) k = inflow t k"
    and "length (pivot_step c n m t) = length t"
    and "\<forall>(a, x)\<in>set t. 0 \<le> x \<Longrightarrow> \<forall>(a, x)\<in>set (pivot_step c n m t). 0 \<le> x"
proof -
  have "distinct (map fst (pivot_step c n m t)) \<and> outflow (pivot_step c n m t) k = outflow t k
      \<and> inflow (pivot_step c n m t) k = inflow t k \<and> length (pivot_step c n m t) = length t
      \<and> ((\<forall>(a, x)\<in>set t. 0 \<le> x) \<longrightarrow> (\<forall>(a, x)\<in>set (pivot_step c n m t). 0 \<le> x))"
  proof (cases "entering_arc c n m t (potentials c (map fst t))")
    case None
    then show ?thesis using d by (simp add: pivot_step_def)
  next
    case (Some e)
    note pi = pivot_invariant[OF d potentials_ok[of "map fst t" c] entering_arc_Some(1)[OF Some]]
    from pi(1) pi(2)[of k] pi(3)[of k] pi(4) pi(5) Some show ?thesis
      by (simp add: pivot_step_def)
  qed
  then show "distinct (map fst (pivot_step c n m t))"
    and "outflow (pivot_step c n m t) k = outflow t k"
    and "inflow (pivot_step c n m t) k = inflow t k"
    and "length (pivot_step c n m t) = length t"
    and "\<forall>(a, x)\<in>set t. 0 \<le> x \<Longrightarrow> \<forall>(a, x)\<in>set (pivot_step c n m t). 0 \<le> x"
    by blast+
qed

lemma after_pivots_invariant:
  "distinct (map fst t) \<Longrightarrow>
     distinct (map fst (after_pivots j c n m t))
     \<and> outflow (after_pivots j c n m t) k = outflow t k
     \<and> inflow (after_pivots j c n m t) k = inflow t k
     \<and> length (after_pivots j c n m t) = length t
     \<and> ((\<forall>(a, x)\<in>set t. 0 \<le> x) \<longrightarrow> (\<forall>(a, x)\<in>set (after_pivots j c n m t). 0 \<le> x))"
proof (induction j arbitrary: t)
  case 0
  then show ?case by simp
next
  case (Suc j)
  note ps = pivot_step_invariant[OF Suc.prems, of c n m]
  from Suc.IH[OF ps(1)] ps(2)[of k] ps(3)[of k] ps(4) ps(5) show ?case
    by simp
qed

lemma simplex_loop_cap:
  "\<forall>j\<le>k. \<not> optimal c n m (after_pivots j c n m t) \<Longrightarrow>
     simplex_loop k c n m t = Inl (NonConvergenceError (after_pivots k c n m t))"
proof (induction k arbitrary: t)
  case 0
  then have "\<not> optimal c n m t" by simp
  then obtain e where "entering_arc c n m t (potentials c (map fst t)) = Some e"
    using entering_arc_None[of c n m t] by auto
  then show ?case by simp
next
  case (Suc k)
  from Suc.prems have "\<not> optimal c n m (after_pivots 0 c n m t)" by blast
  then have "\<not> optimal c n m t" by simp
  then obtain e where e: "entering_arc c n m t (potentials c (map fst t)) = Some e"
    using entering_arc_None[of c n m t] by auto
  have "\<forall>j\<le>k. \<not> optimal c n m (after_pivots j c n m (pivot_step c n m t))"
  proof (intro allI impI)
    fix j assume "j \<le> k"
    then have "Suc j \<le> Suc k" by simp
    with Suc.prems have "\<not> optimal c n m (after_pivots (Suc j) c n m t)" by blast
    then show "\<not> optimal c n m (after_pivots j c n m (pivot_step c n m t))" by simp
  qed
  from Suc.IH[OF this] e show ?case by (simp add: pivot_step_def)
qed

lemma simplex_loop_Inr:
  "simplex_loop k c n m t = Inr t' \<Longrightarrow>
     \<exists>j\<le>k. t' = after_pivots j c n m t \<and> optimal c n m t'"
proof (induction k arbitrary: t)
  case 0
  then have "entering_arc c n m t (potentials c (map fst t)) = None \<and> t' = t"
    by (auto split: option.splits)
  then show ?case using entering_arc_None[of c n m t] by auto
next
  case (Suc k)
  show ?case
  proof (cases "entering_arc c n m t (potentials c (map fst t))")
    case None
    with Suc.prems have "t' = t" by simp
    with None show ?thesis using entering_arc_None[of c n m t] by auto
  next
    case (Some e)
    with Suc.prems have "simplex_loop k c n m (pivot_step c n m t) = Inr t'"
      by (simp add: pivot_step_def)
    from Suc.IH[OF this] obtain j where "j \<le> k" "t' = after_pivots j c n m (pivot_step c n m t)"
      "optimal c n m t'" by blast
    then have "Suc j \<le> Suc k \<and> t' = after_pivots (Suc j) c n m t \<and> optimal c n m t'" by simp
    then show ?thesis by blast
  qed
qed

lemma simplex_loop_Inl:
  "simplex_loop k c n m t = Inl err \<Longrightarrow>
     err = NonConvergenceError (after_pivots k c n m t)
     \<and> (\<forall>j\<le>k. \<not> optimal c n m (after_pivots j c n m t))"
proof (induction k arbitrary: t)
  case 0
  then show ?case using entering_arc_None[of c n m t] by (auto split: option.splits)
next
  case (Suc k)
  show ?case
  proof (cases "entering_arc c n m t (potentials c (map fst t))")
    case None
    with Suc.prems show ?thesis by simp
  next
    case (Some e)
    then have no: "\<not> optimal c n m t" using entering_arc_None[of c n m t] by simp
    from Some Suc.prems have "simplex_loop k c n m (pivot_step c n m t) = Inl err"
      by (simp add: pivot_step_def)
    from Suc.IH[OF this] have IH: "err = NonConvergenceError (after_pivots k c n m (pivot_step c n m t))"
      "\<forall>j\<le>k. \<not> optimal c n m (after_pivots j c n m (pivot_step c n m t))" by blast+
    have "\<not> optimal c n m (after_pivots j c n m t)" if "j \<le> Suc k" for j
    proof (cases j)
      case 0
      with no show ?thesis by simp
    next
      case (Suc j')
      with that IH(2) show ?thesis by simp
    qed
    with IH(1) show ?thesis by simp
  qed
qed

subsection \<open>Iteration cap and plan entries\<close>

lemma balance_Inr:
  assumes "balance cfg A B = Inr B'"
  shows "length B' = length B"
    and "B' = B \<or> B' = rescale (total_mass A / total_mass B) B"
  using assms
  by (auto simp add: balance_def rescale_def split: if_splits mass_mismatch_policy.splits)

lemma solve_Inr:
  assumes "solve cfg A B = Inr (plan, cost)"
  shows "\<exists>B' j. balance cfg A B = Inr B' \<and> j \<le> max_iterations cfg
      \<and> solver_optimal cfg A B' (solver_state cfg A B' j)
      \<and> plan = assemble (tolerance cfg) (solver_state cfg A B' j)
      \<and> cost = total_cost (arc_cost cfg A B') plan"
proof -
  from assms obtain B' where b: "balance cfg A B = Inr B'"
    and r: "run_simplex cfg A B' = Inr (plan, cost)"
    by (auto simp add: solve_def split: sum.splits)
  from r obtain t where t: "simplex_loop (max_iterations cfg) (arc_cost cfg A B') (length A)
      (length B') (start_tree A B') = Inr t"
    and p: "plan = assemble (tolerance cfg) t" "cost = total_cost (arc_cost cfg A B') plan"
    by (auto simp add: run_simplex_def split: sum.splits)
  from simplex_loop_Inr[OF t] obtain j where "j \<le> max_iterations cfg"
    "t = solver_state cfg A B' j" "solver_optimal cfg A B' t"
    by (auto simp add: solver_state_def solver_optimal_def)
  with b p show ?thesis by blast
qed

lemma start_tree_distinct: "distinct (map fst (start_tree A B))"
  by (simp add: start_tree_def northwest_distinct)

lemma start_tree_length: "length (start_tree A B) \<le> length A + length B - 1"
  by (simp add: start_tree_def northwest_length)

lemma solver_state_invariant:
  "distinct (map fst (solver_state cfg A B j))"
  "outflow (solver_state cfg A B j) k = outflow (start_tree A B) k"
  "inflow (solver_state cfg A B j) k = inflow (start_tree A B) k"
  "length (solver_state cfg A B j) = length (start_tree A B)"
  "\<forall>(a, x)\<in>set (start_tree A B). 0 \<le> x \<Longrightarrow> \<forall>(a, x)\<in>set (solver_state cfg A B j). 0 \<le> x"
  using after_pivots_invariant[OF start_tree_distinct, of j "arc_cost cfg A B" "length A" "length B" A B k]
  by (simp_all add: solver_state_def)

text \<open>
  C5. When the optimality condition, no arc outside the tree with a negative reduced
  cost, fails at the start and after each of the pivots the cap allows, the solve ends
  with \<open>NonConvergenceError\<close>, which carries the flow reached, and returns no plan.
  Conversely a returned plan is assembled from a state that satisfies the optimality
  condition and was reached within the cap.
\<close>

theorem iteration_cap_failure:
  "(balance cfg A B = Inr B' \<and>
      (\<forall>j\<le>max_iterations cfg. \<not> solver_optimal cfg A B' (solver_state cfg A B' j)) \<longrightarrow>
      solve cfg A B = Inl (NonConvergenceError (solver_state cfg A B' (max_iterations cfg)))
      \<and> (\<forall>plan cost. solve cfg A B \<noteq> Inr (plan, cost)))
   \<and> (\<forall>plan cost. solve cfg A B = Inr (plan, cost) \<longrightarrow>
        (\<exists>B' j. balance cfg A B = Inr B' \<and> j \<le> max_iterations cfg
           \<and> solver_optimal cfg A B' (solver_state cfg A B' j)
           \<and> plan = assemble (tolerance cfg) (solver_state cfg A B' j)))"
proof (intro conjI impI allI)
  assume h: "balance cfg A B = Inr B' \<and>
      (\<forall>j\<le>max_iterations cfg. \<not> solver_optimal cfg A B' (solver_state cfg A B' j))"
  then have "simplex_loop (max_iterations cfg) (arc_cost cfg A B') (length A) (length B')
      (start_tree A B') = Inl (NonConvergenceError (solver_state cfg A B' (max_iterations cfg)))"
    unfolding solver_state_def solver_optimal_def by (intro simplex_loop_cap) simp
  with h show e: "solve cfg A B = Inl (NonConvergenceError (solver_state cfg A B' (max_iterations cfg)))"
    by (simp add: solve_def run_simplex_def)
  fix plan cost
  from e show "solve cfg A B \<noteq> Inr (plan, cost)" by simp
next
  fix plan cost
  assume "solve cfg A B = Inr (plan, cost)"
  from solve_Inr[OF this]
  show "\<exists>B' j. balance cfg A B = Inr B' \<and> j \<le> max_iterations cfg
           \<and> solver_optimal cfg A B' (solver_state cfg A B' j)
           \<and> plan = assemble (tolerance cfg) (solver_state cfg A B' j)"
    by blast
qed

lemma assemble_positive:
  "\<forall>(a, x)\<in>set t. 0 \<le> x \<Longrightarrow> \<forall>(a, x)\<in>set (assemble eps t). 0 < x"
  by (auto simp add: assemble_def)

lemma assemble_length: "length (assemble eps t) \<le> length t"
  by (simp add: assemble_def)

lemma assemble_distinct: "distinct (map fst t) \<Longrightarrow> distinct (map fst (assemble eps t))"
  by (simp add: assemble_def distinct_map_filter)

lemma start_tree_nonneg:
  "\<forall>b\<in>set A. 0 \<le> bin_mass b \<Longrightarrow> \<forall>b\<in>set B. 0 \<le> bin_mass b \<Longrightarrow>
     \<forall>(a, x)\<in>set (start_tree A B). 0 \<le> x"
  unfolding start_tree_def by (rule northwest_nonneg) simp_all

lemma total_mass_nonneg: "\<forall>b\<in>set A. 0 \<le> bin_mass b \<Longrightarrow> 0 \<le> total_mass A"
  by (auto simp add: total_mass_def intro!: sum_list_nonneg)

lemma balance_nonneg:
  assumes "balance cfg A B = Inr B'" "\<forall>b\<in>set A. 0 \<le> bin_mass b" "\<forall>b\<in>set B. 0 \<le> bin_mass b"
  shows "\<forall>b\<in>set B'. 0 \<le> bin_mass b"
proof -
  have r: "0 \<le> total_mass A / total_mass B"
    using total_mass_nonneg[OF assms(2)] total_mass_nonneg[OF assms(3)] by simp
  have "0 \<le> total_mass A * bin_mass b / total_mass B" if "b \<in> set B" for b
  proof -
    from that assms(3) have "0 \<le> bin_mass b" by blast
    with r have "0 \<le> (total_mass A / total_mass B) * bin_mass b" by (rule mult_nonneg_nonneg)
    then show ?thesis by simp
  qed
  with balance_Inr(2)[OF assms(1)] assms(3) show ?thesis
    by (auto simp add: rescale_def)
qed

text \<open>
  C6. For histograms with nonnegative masses, as the data model has them, every entry
  of a returned plan is strictly positive, no pair of bins has two entries, and the
  number of entries is at most the number of source bins plus the number of sink bins
  minus one.
\<close>

theorem plan_sparsity:
  assumes "\<forall>b\<in>set A. 0 \<le> bin_mass b" and "\<forall>b\<in>set B. 0 \<le> bin_mass b"
    and "solve cfg A B = Inr (plan, cost)"
  shows "(\<forall>(a, x)\<in>set plan. 0 < x) \<and> distinct (map fst plan)
       \<and> length plan \<le> length A + length B - 1"
proof -
  from solve_Inr[OF assms(3)] obtain B' j where b: "balance cfg A B = Inr B'"
    and p: "plan = assemble (tolerance cfg) (solver_state cfg A B' j)"
    by blast
  note inv = solver_state_invariant[where cfg = cfg and A = A and B = B' and j = j]
  have nn: "\<forall>(a, x)\<in>set (solver_state cfg A B' j). 0 \<le> x"
    using inv(5) start_tree_nonneg[OF assms(1) balance_nonneg[OF b assms(1,2)]] by blast
  have "length plan \<le> length (start_tree A B')"
    using p assemble_length[of "tolerance cfg" "solver_state cfg A B' j"] inv(4) by simp
  also have "\<dots> \<le> length A + length B' - 1" by (rule start_tree_length)
  finally have "length plan \<le> length A + length B - 1"
    using balance_Inr(1)[OF b] by simp
  with assemble_positive[OF nn] assemble_distinct[OF inv(1)] p show ?thesis by blast
qed

subsection \<open>Mass conservation\<close>






lemma rescale_one: "rescale 1 B = B"
  by (simp add: rescale_def)

lemma balance_same_total:
  assumes "balance cfg A B = Inr B'" "total_mass A = total_mass B" "total_mass B \<noteq> 0"
  shows "B' = B"
  using balance_Inr(2)[OF assms(1)] assms(2,3) by (auto simp add: rescale_one)


subsection \<open>Flows on the grid of the sample counts\<close>





















subsection \<open>Concrete runs\<close>

text \<open>
  Four bins against themselves with a cap of one pivot: the start tree and the tree
  after the pivot both have an arc with negative reduced cost.
\<close>

theorem iteration_cap_failure_witness:
  "solve \<lparr> cost_model = squared_euclidean, mass_mismatch = Fail, max_iterations = 1,
           tolerance = 1 / 1000 \<rparr>
     [\<lparr> bin_index = [0, 0], bin_center = [1 / 2, 1 / 2], bin_mass = 1 / 4 \<rparr>,
      \<lparr> bin_index = [0, 10], bin_center = [1 / 2, 21 / 2], bin_mass = 1 / 4 \<rparr>,
      \<lparr> bin_index = [1, 0], bin_center = [3 / 2, 1 / 2], bin_mass = 1 / 4 \<rparr>,
      \<lparr> bin_index = [0, 9], bin_center = [1 / 2, 19 / 2], bin_mass = 1 / 4 \<rparr>]
     [\<lparr> bin_index = [0, 0], bin_center = [1 / 2, 1 / 2], bin_mass = 1 / 4 \<rparr>,
      \<lparr> bin_index = [0, 10], bin_center = [1 / 2, 21 / 2], bin_mass = 1 / 4 \<rparr>,
      \<lparr> bin_index = [1, 0], bin_center = [3 / 2, 1 / 2], bin_mass = 1 / 4 \<rparr>,
      \<lparr> bin_index = [0, 9], bin_center = [1 / 2, 19 / 2], bin_mass = 1 / 4 \<rparr>]
   = Inl (NonConvergenceError
       [((3, 0), 0), ((0, 0), 1 / 4), ((1, 1), 1 / 4), ((2, 1), 0),
        ((2, 2), 1 / 4), ((3, 2), 0), ((3, 3), 1 / 4)])"
proof -
  let ?cfg = "\<lparr> cost_model = squared_euclidean, mass_mismatch = Fail, max_iterations = 1,
           tolerance = 1 / 1000 \<rparr>"
  let ?A = "[\<lparr> bin_index = [0, 0], bin_center = [1 / 2, 1 / 2], bin_mass = 1 / 4 \<rparr>,
      \<lparr> bin_index = [0, 10], bin_center = [1 / 2, 21 / 2], bin_mass = 1 / 4 \<rparr>,
      \<lparr> bin_index = [1, 0], bin_center = [3 / 2, 1 / 2], bin_mass = 1 / 4 \<rparr>,
      \<lparr> bin_index = [0, 9], bin_center = [1 / 2, 19 / 2], bin_mass = 1 / 4 \<rparr>]"
  have b: "balance ?cfg ?A ?A = Inr ?A"
    by (simp add: balance_def)
  have o0: "\<not> solver_optimal ?cfg ?A ?A (solver_state ?cfg ?A ?A 0)"
    by code_simp
  have o1: "\<not> solver_optimal ?cfg ?A ?A (solver_state ?cfg ?A ?A 1)"
    by code_simp
  have s: "solver_state ?cfg ?A ?A 1 =
       [((3, 0), 0), ((0, 0), 1 / 4), ((1, 1), 1 / 4), ((2, 1), 0),
        ((2, 2), 1 / 4), ((3, 2), 0), ((3, 3), 1 / 4)]"
    by code_simp
  have "\<forall>j\<le>max_iterations ?cfg. \<not> solver_optimal ?cfg ?A ?A (solver_state ?cfg ?A ?A j)"
    using o0 o1 by (simp add: le_Suc_eq)
  with b iteration_cap_failure[of ?cfg ?A ?A ?A] s show ?thesis
    by simp
qed

text \<open>
  The split example of section 8: masses 0.6 and 0.4 onto masses 0.4 and 0.6.
\<close>

theorem plan_sparsity_witness:
  "solve \<lparr> cost_model = squared_euclidean, mass_mismatch = Fail, max_iterations = 10,
           tolerance = 1 / 1000 \<rparr>
     [\<lparr> bin_index = [0], bin_center = [0], bin_mass = 3 / 5 \<rparr>,
      \<lparr> bin_index = [1], bin_center = [1], bin_mass = 2 / 5 \<rparr>]
     [\<lparr> bin_index = [0], bin_center = [0], bin_mass = 2 / 5 \<rparr>,
      \<lparr> bin_index = [1], bin_center = [1], bin_mass = 3 / 5 \<rparr>]
     = Inr ([((0, 0), 2 / 5), ((0, 1), 1 / 5), ((1, 1), 2 / 5)], 1 / 5)
   \<and> list_all (\<lambda>(a, x). 0 < x) [((0 :: nat, 0 :: nat), 2 / 5 :: real), ((0, 1), 1 / 5), ((1, 1), 2 / 5)]
   \<and> distinct (map fst [((0 :: nat, 0 :: nat), 2 / 5 :: real), ((0, 1), 1 / 5), ((1, 1), 2 / 5)])
   \<and> length [((0 :: nat, 0 :: nat), 2 / 5 :: real), ((0, 1), 1 / 5), ((1, 1), 2 / 5)] \<le> 2 + 2 - 1"
proof -
  let ?cfg = "\<lparr> cost_model = squared_euclidean, mass_mismatch = Fail, max_iterations = 10,
           tolerance = 1 / 1000 \<rparr>"
  let ?A = "[\<lparr> bin_index = [0], bin_center = [0], bin_mass = 3 / 5 \<rparr>,
      \<lparr> bin_index = [1], bin_center = [1], bin_mass = 2 / 5 \<rparr>]"
  let ?B = "[\<lparr> bin_index = [0], bin_center = [0], bin_mass = 2 / 5 \<rparr>,
      \<lparr> bin_index = [1], bin_center = [1], bin_mass = 3 / 5 \<rparr>]"
  let ?plan = "[((0 :: nat, 0 :: nat), 2 / 5 :: real), ((0, 1), 1 / 5), ((1, 1), 2 / 5)]"
  have s: "solve ?cfg ?A ?B = Inr (?plan, 1 / 5)"
    by code_simp
  have a: "\<forall>b\<in>set ?A. 0 \<le> bin_mass b" by simp
  have b: "\<forall>b\<in>set ?B. 0 \<le> bin_mass b" by simp
  from plan_sparsity[OF a b s] s show ?thesis by simp
qed

subsection \<open>Potentials along the cycle\<close>

text \<open>
  The potential stored with a node is the one its path accumulates, so the reduced
  cost of the entering arc is its cost minus the potential accumulated round the
  cycle: the cost of the arcs that gain flow minus the cost of the arcs that lose it.
\<close>

lemma path_pot_append:
  "xs \<noteq> [] \<Longrightarrow> path_pot c (xs @ ys) = path_pot c xs + path_pot c (last xs # ys)"
proof (induction c xs rule: path_pot.induct)
  case (1 c u v w)
  then show ?case by simp
next
  case (2 c u)
  then show ?case by simp
next
  case (3 c)
  then show ?case by simp
qed

lemma step_cost_sym: "other_end u a = Some v \<Longrightarrow> step_cost c v u = - step_cost c u v"
  by (cases u; cases v; cases a) (auto split: if_splits)

lemma path_pot_rev: "walk_in arcs w \<Longrightarrow> path_pot c (rev w) = - path_pot c w"
proof (induction arcs w rule: walk_in.induct)
  case (1 arcs u v w)
  then obtain a where a: "other_end u a = Some v" by auto
  have "path_pot c (rev (u # v # w)) = path_pot c (rev (v # w) @ [u])" by simp
  also have "\<dots> = path_pot c (rev (v # w)) + path_pot c (last (rev (v # w)) # [u])"
    by (rule path_pot_append) simp
  also have "\<dots> = - path_pot c (v # w) + step_cost c v u"
    using 1 by simp
  also have "\<dots> = - path_pot c (u # v # w)"
    using step_cost_sym[OF a, of c] by simp
  finally show ?case .
qed simp_all

lemma path_pot_arcs:
  "walk_in arcs w \<Longrightarrow>
     path_pot c w = sum_list (map (\<lambda>a. c (fst a) (snd a)) (backward_arcs w))
                  - sum_list (map (\<lambda>a. c (fst a) (snd a)) (forward_arcs w))"
proof (induction arcs w rule: walk_in.induct)
  case (1 arcs u v w)
  then obtain a where a: "other_end u a = Some v" by auto
  from 1 have IH: "path_pot c (v # w) = sum_list (map (\<lambda>a. c (fst a) (snd a)) (backward_arcs (v # w)))
                  - sum_list (map (\<lambda>a. c (fst a) (snd a)) (forward_arcs (v # w)))"
    by simp
  show ?case
  proof (cases u)
    case (Src i)
    with a obtain j where v: "v = Snk j" by (auto simp add: other_end_Src)
    show ?thesis using Src v IH by simp
  next
    case (Snk j)
    with a obtain i where v: "v = Src i" by (auto simp add: other_end_Snk)
    show ?thesis using Snk v IH by simp
  qed
qed simp_all

lemma visit_pot:
  assumes "table_ok arcs (snd qt)" "table_pot c (snd qt)" "(v, pth, pot) \<in> set (snd qt)"
  shows "table_pot c (snd (visit c v pth pot qt a))"
proof (cases "other_end v a")
  case None
  with assms show ?thesis by (simp add: visit_def)
next
  case (Some w)
  show ?thesis
  proof (cases "map_of (snd qt) w = None")
    case True
    from table_entry(1,2)[OF assms(1,3)] have p: "pth \<noteq> []" "last pth = v" .
    from assms(2,3) have "pot = path_pot c pth" by (auto simp add: table_pot_def)
    then have "pot + step_cost c v w = path_pot c (pth @ [w])"
      using path_pot_append[OF p(1), of c "[w]"] p(2) by simp
    with assms(2) Some True show ?thesis
      by (auto simp add: visit_def table_pot_def)
  next
    case False
    with assms Some show ?thesis by (auto simp add: visit_def)
  qed
qed

lemma foldl_visit_pot:
  "table_ok arcs (snd qt) \<Longrightarrow> table_pot c (snd qt) \<Longrightarrow> (v, pth, pot) \<in> set (snd qt) \<Longrightarrow>
     set as \<subseteq> set arcs \<Longrightarrow> table_pot c (snd (foldl (visit c v pth pot) qt as))"
proof (induction as arbitrary: qt)
  case Nil
  then show ?case by simp
next
  case (Cons a as)
  from Cons.prems have a: "a \<in> set arcs" by simp
  from visit_ok[OF Cons.prems(1,3) a, of c] visit_pot[OF Cons.prems(1,2,3), of a]
    Cons.prems(4) Cons.IH
  show ?case by simp
qed

lemma traverse_pot:
  "table_ok arcs tab \<Longrightarrow> table_pot c tab \<Longrightarrow> table_pot c (traverse k c arcs queue tab)"
proof (induction k arbitrary: queue tab)
  case 0
  then show ?case by simp
next
  case (Suc k)
  show ?case
  proof (cases queue)
    case Nil
    with Suc show ?thesis by simp
  next
    case (Cons v queue')
    show ?thesis
    proof (cases "map_of tab v")
      case None
      with Cons Suc show ?thesis by simp
    next
      case (Some e)
      obtain pth pot where e: "e = (pth, pot)" by (cases e)
      with Some have m: "(v, pth, pot) \<in> set tab" by (simp add: map_of_SomeD)
      let ?r = "foldl (visit c v pth pot) (queue', tab) arcs"
      have 1: "table_ok arcs (snd ?r)"
        using foldl_visit_ok[of arcs "(queue', tab)" v pth pot arcs c] Suc.prems(1) m by simp
      have 2: "table_pot c (snd ?r)"
        using foldl_visit_pot[of arcs "(queue', tab)" c v pth pot arcs] Suc.prems m by simp
      have "table_pot c (traverse k c arcs (fst ?r) (snd ?r))"
        using 1 2 by (rule Suc.IH)
      then show ?thesis
        using Cons Some e by (simp add: case_prod_beta)
    qed
  qed
qed

lemma potentials_pot: "table_pot c (potentials c arcs)"
  unfolding potentials_def
  by (rule traverse_pot) (simp_all add: table_ok_def table_pot_def)

lemma reduced_cost_cycle:
  assumes ok: "table_ok arcs tab" and tp: "table_pot c tab" and w: "cycle_walk tab e = Some w"
  shows "reduced_cost c tab e = c (fst e) (snd e) - path_pot c w"
proof -
  from w obtain pq potq pp potp l rq rp where
    mq: "map_of tab (Snk (snd e)) = Some (pq, potq)" and
    mp: "map_of tab (Src (fst e)) = Some (pp, potp)" and
    sc: "strip_common pq pp (Src 0) = (l, rq, rp)" and
    wd: "w = rev rq @ l # rp"
    by (auto simp add: cycle_walk_def split: option.splits prod.splits)
  from mq have eq: "(Snk (snd e), pq, potq) \<in> set tab" by (rule map_of_SomeD)
  from mp have ep: "(Src (fst e), pp, potp) \<in> set tab" by (rule map_of_SomeD)
  from strip_common_spec[OF sc] obtain pre where
    pq: "pq = pre @ rq" and pp: "pp = pre @ rp" and l: "l = last (Src 0 # pre)"
    and dv: "rq = [] \<or> rp = [] \<or> hd rq \<noteq> hd rp"
    by blast
  note tq = table_entry[OF ok eq] and tp' = table_entry[OF ok ep]
  have pre_ne: "pre \<noteq> []"
  proof
    assume "pre = []"
    with pq pp tq(1,3) tp'(1,3) dv show False by simp
  qed
  with l have l': "l = last pre" by simp
  have potq: "potq = path_pot c pre + path_pot c (l # rq)"
    using tp eq pq path_pot_append[OF pre_ne, of c rq] l' by (auto simp add: table_pot_def)
  have potp: "potp = path_pot c pre + path_pot c (l # rp)"
    using tp ep pp path_pot_append[OF pre_ne, of c rp] l' by (auto simp add: table_pot_def)
  have "walk_in arcs (butlast pre @ (l # rq))"
    using tq(4) pq l' pre_ne by (metis append_butlast_last_id append.assoc append_Cons append_Nil)
  then have wq: "walk_in arcs (l # rq)" by (simp add: walk_in_append)
  have "path_pot c w = path_pot c ((rev rq @ [l]) @ rp)" using wd by simp
  also have "\<dots> = path_pot c (rev rq @ [l]) + path_pot c (l # rp)"
    using path_pot_append[of "rev rq @ [l]" c rp] by simp
  also have "path_pot c (rev rq @ [l]) = path_pot c (rev (l # rq))" by simp
  also have "\<dots> = - path_pot c (l # rq)" using wq by (rule path_pot_rev)
  finally have "path_pot c w = path_pot c (l # rp) - path_pot c (l # rq)" by simp
  then show ?thesis
    using mq mp potq potp by (simp add: reduced_cost_def pot_of_def)
qed

subsection \<open>Identical histograms\<close>

text \<open>
  On two equal mass vectors the northwest-corner rule starts with the identity flow.
  A pivot that moved flow away from it would take flow from diagonal arcs only, whose
  costs are zero, and the entering arc would have a nonnegative reduced cost; so every
  pivot moves nothing and only exchanges two arcs without flow.
\<close>

lemma northwest_unroll:
  assumes "0 < m'"
  shows "northwest i i (m # m' # rest) (m # m' # rest) =
     ((i, i), m) # ((Suc i, i), 0) # northwest (Suc i) (Suc i) (m' # rest) (m' # rest)"
  using assms by simp

lemma northwest_identity:
  "\<forall>m\<in>set ms. 0 < m \<Longrightarrow>
     (\<forall>(a, x)\<in>set (northwest i i ms ms). x = (if fst a = snd a then ms ! (fst a - i) else 0))
     \<and> (\<forall>k<length ms. (i + k, i + k) \<in> set (map fst (northwest i i ms ms)))"
proof (induction ms arbitrary: i)
  case Nil
  then show ?case by simp
next
  case (Cons m ms)
  note IH0 = Cons.IH and prems = Cons.prems
  show ?case
  proof (cases ms)
    case Nil
    then show ?thesis by simp
  next
    case ms: (Cons m' rest)
    with prems have m': "0 < m'" by simp
    let ?r = "northwest (Suc i) (Suc i) ms ms"
    have eq: "northwest i i (m # ms) (m # ms) = ((i, i), m) # ((Suc i, i), 0) # ?r"
      unfolding ms using m' by (rule northwest_unroll)
    from prems have "\<forall>m\<in>set ms. 0 < m" by simp
    from IH0[OF this, of "Suc i"] have IH:
      "\<forall>(a, x)\<in>set ?r. x = (if fst a = snd a then ms ! (fst a - Suc i) else 0)"
      "\<forall>k<length ms. (Suc i + k, Suc i + k) \<in> set (map fst ?r)"
      by blast+
    have rng: "Suc i \<le> fst a" if "(a, x) \<in> set ?r" for a x
      using northwest_range[OF that] by simp
    have 1: "x = (if fst a = snd a then (m # ms) ! (fst a - i) else 0)"
      if "(a, x) \<in> set (northwest i i (m # ms) (m # ms))" for a x
    proof -
      from that have "(a, x) \<in> set (((i, i), m) # ((Suc i, i), 0) # ?r)" unfolding eq .
      then consider "a = (i, i)" "x = m" | "a = (Suc i, i)" "x = 0" | "(a, x) \<in> set ?r"
        by auto
      then show ?thesis
      proof cases
        case 1
        then show ?thesis by simp
      next
        case 2
        then show ?thesis by simp
      next
        case 3
        with IH(1) have "x = (if fst a = snd a then ms ! (fst a - Suc i) else 0)" by blast
        moreover have "(m # ms) ! (fst a - i) = ms ! (fst a - Suc i)"
          using rng[OF 3] by (simp add: nth_Cons' Suc_diff_le)
        ultimately show ?thesis by (cases "fst a = snd a") (simp_all only: if_True if_False)
      qed
    qed
    have 2: "(i + k, i + k) \<in> set (map fst (northwest i i (m # ms) (m # ms)))"
      if "k < length (m # ms)" for k
    proof (cases k)
      case 0
      then show ?thesis unfolding eq by simp
    next
      case (Suc k')
      with that have "k' < length ms" by simp
      with IH(2) have "(Suc i + k', Suc i + k') \<in> set (map fst ?r)" by blast
      then show ?thesis unfolding eq using Suc by simp
    qed
    from 1 2 show ?thesis by blast
  qed
qed

lemma start_tree_identity:
  assumes "\<forall>b\<in>set A. 0 < bin_mass b"
  shows "identity_flow (map bin_mass A) (start_tree A A)"
proof -
  let ?ms = "map bin_mass A"
  have pos: "\<forall>m\<in>set ?ms. 0 < m" using assms by simp
  note ni = northwest_identity[OF pos, of 0]
  have "x = (if fst a = snd a \<and> fst a < length ?ms then ?ms ! fst a else 0)"
    if "(a, x) \<in> set (northwest 0 0 ?ms ?ms)" for a x
  proof -
    from ni that have "x = (if fst a = snd a then ?ms ! (fst a - 0) else 0)" by blast
    moreover have "fst a < length ?ms" using northwest_range[OF that] by simp
    ultimately show ?thesis by simp
  qed
  moreover have "\<forall>i<length ?ms. (i, i) \<in> set (map fst (northwest 0 0 ?ms ?ms))"
    using ni by simp
  ultimately show ?thesis
    unfolding identity_flow_def start_tree_def
    using northwest_distinct[of 0 0 ?ms ?ms] by blast
qed

lemma most_negative_neg:
  "most_negative rc as best = Some e \<Longrightarrow> best = Some e \<or> rc e < 0"
  by (induction as arbitrary: best) (auto split: if_splits)

lemma entering_arc_neg:
  "entering_arc c n m t tab = Some e \<Longrightarrow> reduced_cost c tab e < 0"
  using most_negative_neg[of "reduced_cost c tab" "non_tree_arcs n m t" None e]
  by (simp add: entering_arc_def)

lemma add_flow_zero: "add_flow a 0 t = t"
  by (induction t) (auto simp add: add_flow_def)

lemma push_zero: "push 0 w t = t"
  by (induction "0 :: real" w t rule: push.induct) (simp_all add: add_flow_zero)

lemma identity_flow_entry:
  assumes "identity_flow ms t" "a \<in> set (map fst t)"
  shows "flow_of t a = (if fst a = snd a \<and> fst a < length ms then ms ! fst a else 0)"
proof -
  from assms(2) obtain x where x: "(a, x) \<in> set t" by auto
  with assms(1) have "x = (if fst a = snd a \<and> fst a < length ms then ms ! fst a else 0)"
    unfolding identity_flow_def by blast
  moreover have "flow_of t a = x"
    using flow_of_entry[OF _ x] assms(1) by (simp add: identity_flow_def)
  ultimately show ?thesis by simp
qed

lemma sum_list_zero: "(\<forall>x\<in>set xs. f x = (0 :: real)) \<Longrightarrow> sum_list (map f xs) = 0"
  by (induction xs) simp_all

lemma pivot_identity:
  assumes id: "identity_flow ms t" and pos: "\<forall>m\<in>set ms. 0 < m"
    and c0: "\<forall>k. c k k = 0" and cn: "\<forall>i j. 0 \<le> c i j"
    and e: "entering_arc c (length ms) (length ms) t (potentials c (map fst t)) = Some e"
  shows "identity_flow ms (pivot t (potentials c (map fst t)) e)"
proof -
  let ?tab = "potentials c (map fst t)"
  from id have d: "distinct (map fst t)" by (simp add: identity_flow_def)
  have ok: "table_ok (map fst t) ?tab" by (rule potentials_ok)
  have tp: "table_pot c ?tab" by (rule potentials_pot)
  note en = entering_arc_Some[OF e]
  have rc: "reduced_cost c ?tab e < 0" using e by (rule entering_arc_neg)
  have nn: "\<forall>(a, x)\<in>set t. 0 \<le> x"
  proof -
    have "0 \<le> x" if "(a, x) \<in> set t" for a x
    proof -
      from id that have "x = (if fst a = snd a \<and> fst a < length ms then ms ! fst a else 0)"
        unfolding identity_flow_def by blast
      moreover have "0 < ms ! fst a" if "fst a < length ms" using pos that by simp
      ultimately show ?thesis by (auto simp add: less_imp_le)
    qed
    then show ?thesis by blast
  qed
  show ?thesis
  proof (cases "cycle_walk ?tab e")
    case None
    then show ?thesis using id by (simp add: pivot_def)
  next
    case (Some w)
    note w = cycle_walk_props[OF ok Some]
    show ?thesis
    proof (cases "backward_arcs w")
      case Nil
      then show ?thesis using id Some by (simp add: pivot_def)
    next
      case (Cons b bs)
      from pivot_unfold[OF Some Cons, of t] obtain theta leave where
        pv: "pivot t ?tab e = (e, theta) # filter (\<lambda>(a, x). a \<noteq> leave) (push theta w t)"
        and lv: "leave \<in> set (b # bs)" "flow_of t leave = theta"
        and le: "\<forall>a\<in>set (b # bs). theta \<le> flow_of t a"
        by blast
      have th0: "0 \<le> theta" using lv(2) flow_of_nonneg[OF nn, of leave] by simp
      have bt: "set (backward_arcs w) \<subseteq> set (map fst t)" using backward_arcs_in[OF w(1)] .
      have theta: "theta = 0"
      proof (rule ccontr)
        assume "theta \<noteq> 0"
        with th0 have tp0: "0 < theta" by simp
        have diag: "fst a = snd a" if "a \<in> set (backward_arcs w)" for a
        proof -
          from that le Cons tp0 have "0 < flow_of t a" by auto
          moreover from that bt have "a \<in> set (map fst t)" by blast
          ultimately show ?thesis using identity_flow_entry[OF id, of a] by (auto split: if_splits)
        qed
        have "sum_list (map (\<lambda>a. c (fst a) (snd a)) (backward_arcs w)) = 0"
          using diag c0 by (intro sum_list_zero) simp
        moreover have "0 \<le> sum_list (map (\<lambda>a. c (fst a) (snd a)) (forward_arcs w))"
          using cn by (intro sum_list_nonneg) auto
        ultimately have "path_pot c w \<le> 0"
          using path_pot_arcs[OF w(1), of c] by simp
        moreover have "0 \<le> c (fst e) (snd e)" using cn by simp
        ultimately have "0 \<le> reduced_cost c ?tab e"
          using reduced_cost_cycle[OF ok tp Some] by simp
        with rc show False by simp
      qed
      have lt: "leave \<in> set (map fst t)" using lv(1) Cons bt by auto
      have l0: "flow_of t leave = 0" using lv(2) theta by simp
      have pv': "pivot t ?tab e = (e, 0) # filter (\<lambda>(a, x). a \<noteq> leave) t"
        using pv theta by (simp add: push_zero)
      have ndiag: "\<not> (fst a = snd a \<and> fst a < length ms)" if "a = leave \<or> a = e" for a
      proof
        assume a: "fst a = snd a \<and> fst a < length ms"
        then have m: "a \<in> set (map fst t)"
          using id unfolding identity_flow_def by (metis prod.collapse)
        with en(1) that have "a = leave" by auto
        with identity_flow_entry[OF id m] a l0 have "ms ! fst a = 0" by simp
        moreover have "0 < ms ! fst a" using pos a by simp
        ultimately show False by simp
      qed
      have d1: "distinct (map fst (pivot t ?tab e))"
        using pivot_invariant(1)[OF d ok en(1)] .
      have v1: "x = (if fst a = snd a \<and> fst a < length ms then ms ! fst a else 0)"
        if "(a, x) \<in> set (pivot t ?tab e)" for a x
      proof -
        from that pv' consider "a = e" "x = 0" | "(a, x) \<in> set t" by auto
        then show ?thesis
        proof cases
          case 1
          with ndiag[of a] show ?thesis by auto
        next
          case 2
          with id show ?thesis unfolding identity_flow_def by blast
        qed
      qed
      have k1: "(i, i) \<in> set (map fst (pivot t ?tab e))" if "i < length ms" for i
      proof -
        from id that have "(i, i) \<in> set (map fst t)" by (simp add: identity_flow_def)
        then obtain x where "((i, i), x) \<in> set t" by auto
        moreover have "(i, i) \<noteq> leave" using ndiag[of "(i, i)"] that by auto
        ultimately have "((i, i), x) \<in> set (filter (\<lambda>(a, x). a \<noteq> leave) t)" by simp
        then show ?thesis unfolding pv' by force
      qed
      from d1 v1 k1 show ?thesis unfolding identity_flow_def by blast
    qed
  qed
qed

lemma after_pivots_identity:
  assumes pos: "\<forall>m\<in>set ms. 0 < m" and c0: "\<forall>k. c k k = 0" and cn: "\<forall>i j. 0 \<le> c i j"
  shows "identity_flow ms t \<Longrightarrow> identity_flow ms (after_pivots j c (length ms) (length ms) t)"
proof (induction j arbitrary: t)
  case 0
  then show ?case by simp
next
  case (Suc j)
  have "identity_flow ms (pivot_step c (length ms) (length ms) t)"
  proof (cases "entering_arc c (length ms) (length ms) t (potentials c (map fst t))")
    case None
    then show ?thesis using Suc.prems by (simp add: pivot_step_def)
  next
    case (Some e)
    from pivot_identity[OF Suc.prems pos c0 cn Some] Some show ?thesis
      by (simp add: pivot_step_def)
  qed
  from Suc.IH[OF this] show ?case by simp
qed

subsection \<open>The identity plan\<close>

lemma squared_euclidean_nonneg: "0 \<le> squared_euclidean x y"
  unfolding squared_euclidean_def by (rule sum_list_nonneg) auto

lemma squared_euclidean_self: "squared_euclidean x x = 0"
  unfolding squared_euclidean_def by (induction x) simp_all

text \<open>
  A histogram solved against itself. Let the histogram be built by the construction of
  section 4.1, the cost model be nonnegative and zero between equal points, as a metric
  is, and the tolerance be no larger than any bin mass. Then a plan that the solve
  returns is the identity: the entry of the pair \<open>(i, i)\<close> is the mass of bin \<open>i\<close>, no
  other pair has an entry, and the total cost is 0. The flow is the identity from the
  northwest start on; the pivots exchange tree arcs of flow 0 until no reduced cost is
  negative.
\<close>

lemma returned_plan_identity:
  assumes "SparseHistogram samples widths = Inr A"
    and "\<forall>x y. 0 \<le> cost_model cfg x y" and "\<forall>x. cost_model cfg x x = 0"
    and "\<forall>b\<in>set A. tolerance cfg \<le> bin_mass b"
    and "solve cfg A A = Inr (plan, cost)"
  shows "(\<forall>i j. map_of plan (i, j) =
            (if i = j \<and> i < length A then Some (bin_mass (A ! i)) else None))
       \<and> distinct (map fst plan) \<and> cost = 0"
proof -
  note pa = SparseHistogram_props[OF assms(1)]
  let ?ms = "map bin_mass A"
  let ?c = "arc_cost cfg A A"
  from solve_Inr[OF assms(5)] obtain B' j where b: "balance cfg A A = Inr B'"
    and p0: "plan = assemble (tolerance cfg) (solver_state cfg A B' j)"
    and c0: "cost = total_cost (arc_cost cfg A B') plan"
    by blast
  have B': "B' = A" using balance_same_total[OF b] pa(2) by simp
  let ?t = "solver_state cfg A A j"
  have p: "plan = assemble (tolerance cfg) ?t" and c: "cost = total_cost ?c plan"
    using p0 c0 B' by simp_all
  have pos: "\<forall>m\<in>set ?ms. 0 < m" using pa(3) by simp
  have "identity_flow ?ms (after_pivots j ?c (length ?ms) (length ?ms) (start_tree A A))"
    using pos
  proof (rule after_pivots_identity)
    show "\<forall>k. ?c k k = 0" using assms(3) by (simp add: arc_cost_def)
    show "\<forall>i j. 0 \<le> ?c i j" using assms(2) by (simp add: arc_cost_def)
    show "identity_flow ?ms (start_tree A A)" using pa(3) by (rule start_tree_identity)
  qed
  then have id: "identity_flow ?ms ?t" by (simp add: solver_state_def)
  then have d: "distinct (map fst ?t)"
    and val: "\<And>a x. (a, x) \<in> set ?t \<Longrightarrow>
        x = (if fst a = snd a \<and> fst a < length A then bin_mass (A ! fst a) else 0)"
    and diag: "\<And>i. i < length A \<Longrightarrow> (i, i) \<in> set (map fst ?t)"
    unfolding identity_flow_def by auto
  have dp: "distinct (map fst plan)" using p assemble_distinct[OF d] by simp
  have sub: "(a, x) \<in> set plan \<Longrightarrow> (a, x) \<in> set ?t \<and> x \<noteq> 0" for a x
    using p by (auto simp add: assemble_def)
  have m: "map_of plan (i, k) = (if i = k \<and> i < length A then Some (bin_mass (A ! i)) else None)"
    for i k
  proof (cases "i = k \<and> i < length A")
    case True
    then obtain x where x: "((i, i), x) \<in> set ?t" using diag[of i] by auto
    from val[OF x] True have xv: "x = bin_mass (A ! i)" by simp
    have "A ! i \<in> set A" using True by simp
    with pa(3) assms(4) have "0 < bin_mass (A ! i)" "tolerance cfg \<le> bin_mass (A ! i)" by blast+
    with x xv have "((i, i), bin_mass (A ! i)) \<in> set plan"
      using p by (simp add: assemble_def)
    with dp True show ?thesis by simp
  next
    case False
    have "(i, k) \<notin> fst ` set plan"
    proof
      assume "(i, k) \<in> fst ` set plan"
      then obtain x where x: "((i, k), x) \<in> set plan" by auto
      from sub[OF x] val[of "(i, k)" x] False show False by auto
    qed
    then have "map_of plan (i, k) = None" by (simp add: map_of_eq_None_iff)
    with False show ?thesis by simp
  qed
  have "total_cost ?c plan = 0"
    unfolding total_cost_def
  proof (rule sum_list_zero, rule ballI)
    fix e assume e: "e \<in> set plan"
    obtain a x where ax: "e = (a, x)" by (cases e)
    from sub[of a x] e ax val[of a x] have "fst a = snd a" by (auto split: if_splits)
    then have "?c (fst a) (snd a) = 0" using assms(3) by (simp add: arc_cost_def)
    then show "(case e of (a, x) \<Rightarrow> x * ?c (fst a) (snd a)) = 0" using ax by simp
  qed
  with m dp c show ?thesis by simp
qed

text \<open>
  Three bins against themselves with the squared Euclidean distance.
\<close>

lemma returned_plan_identity_example:
  "solve \<lparr> cost_model = squared_euclidean, mass_mismatch = Fail, max_iterations = 5,
           tolerance = 1 / 1000 \<rparr>
     [\<lparr> bin_index = [0, 0], bin_center = [1 / 2, 1 / 2], bin_mass = 1 / 3 \<rparr>,
      \<lparr> bin_index = [0, 10], bin_center = [1 / 2, 21 / 2], bin_mass = 1 / 3 \<rparr>,
      \<lparr> bin_index = [1, 0], bin_center = [3 / 2, 1 / 2], bin_mass = 1 / 3 \<rparr>]
     [\<lparr> bin_index = [0, 0], bin_center = [1 / 2, 1 / 2], bin_mass = 1 / 3 \<rparr>,
      \<lparr> bin_index = [0, 10], bin_center = [1 / 2, 21 / 2], bin_mass = 1 / 3 \<rparr>,
      \<lparr> bin_index = [1, 0], bin_center = [3 / 2, 1 / 2], bin_mass = 1 / 3 \<rparr>]
   = Inr ([((0, 0), 1 / 3), ((1, 1), 1 / 3), ((2, 2), 1 / 3)], 0)
   \<and> map_of [((0 :: nat, 0 :: nat), 1 / 3 :: real), ((1, 1), 1 / 3), ((2, 2), 1 / 3)] (1, 1)
       = Some (1 / 3)
   \<and> map_of [((0 :: nat, 0 :: nat), 1 / 3 :: real), ((1, 1), 1 / 3), ((2, 2), 1 / 3)] (1, 0)
       = None"
proof -
  let ?cfg = "\<lparr> cost_model = squared_euclidean, mass_mismatch = Fail, max_iterations = 5,
           tolerance = 1 / 1000 \<rparr>"
  let ?A = "[\<lparr> bin_index = [0, 0], bin_center = [1 / 2, 1 / 2], bin_mass = 1 / 3 \<rparr>,
      \<lparr> bin_index = [0, 10], bin_center = [1 / 2, 21 / 2], bin_mass = 1 / 3 \<rparr>,
      \<lparr> bin_index = [1, 0], bin_center = [3 / 2, 1 / 2], bin_mass = 1 / 3 \<rparr>]"
  let ?plan = "[((0 :: nat, 0 :: nat), 1 / 3 :: real), ((1, 1), 1 / 3), ((2, 2), 1 / 3)]"
  have a: "SparseHistogram [[0, 0], [0, 10], [1, 0]] [1, 1] = Inr ?A"
    by (simp add: SparseHistogram_def fill_def bin_of_sample_def center_of_def)
  have n: "\<forall>x y. 0 \<le> cost_model ?cfg x y" by (simp add: squared_euclidean_nonneg)
  have z: "\<forall>x. cost_model ?cfg x x = 0" by (simp add: squared_euclidean_self)
  have e: "\<forall>b\<in>set ?A. tolerance ?cfg \<le> bin_mass b" by simp
  have s: "solve ?cfg ?A ?A = Inr (?plan, 0)"
    by code_simp
  from returned_plan_identity[OF a n z e s] s show ?thesis
    by simp
qed

end
